theory Spec2Isabelle
  imports Main
begin

section \<open>The NetBeans test adapter (testAdapter.ts)\<close>

text \<open>
  The class \<open>NbTestAdapter\<close> keeps a tree of host test items, merges the suites the
  language server reports into it (\<open>updateTests\<close>), reports run states to the host
  (\<open>set\<close>, \<open>testProgress\<close>) and drives one run session (\<open>run\<close>).

  Host objects are mutable and compared by reference, so the model keeps them in a store:
  an address is an index into the list \<open>heap\<close>, \<open>createTestItem\<close> appends a cell, and a
  field assignment is a list update. An exception is a value: every operation returns the
  store it reached together with \<open>Some e\<close> when it threw \<open>e\<close> there, because the
  assignments made before a throw stay made.
\<close>

subsection \<open>Strings\<close>

text \<open>
  A JavaScript string is modelled as a \<open>string\<close>, one \<open>char\<close> per code unit; the
  white space of \<open>String.prototype.trim\<close> and of the regular expression class \<open>\s\<close>
  is the one that lies in that range (TAB, LF, VT, FF, CR, SP, NBSP).
\<close>

fun startsWith :: "string \<Rightarrow> string \<Rightarrow> bool" where
  "startsWith s [] = True"
| "startsWith [] (p # ps) = False"
| "startsWith (c # cs) (p # ps) = (c = p \<and> startsWith cs ps)"

definition is_space :: "char \<Rightarrow> bool" where
  "is_space c = (c \<in> set [CHR 0x09, CHR 0x0A, CHR 0x0B, CHR 0x0C, CHR 0x0D, CHR 0x20, CHR 0xA0])"

definition is_digit :: "char \<Rightarrow> bool" where
  "is_digit c = (c \<in> set ''0123456789'')"

definition trim :: "string \<Rightarrow> string" where
  "trim s = rev (dropWhile is_space (rev (dropWhile is_space s)))"

text \<open>\<open>lines.join('\n')\<close>.\<close>

fun join_lines :: "string list \<Rightarrow> string" where
  "join_lines [] = []"
| "join_lines [l] = l"
| "join_lines (l # ls) = l @ CHR 0x0A # join_lines ls"

text \<open>
  \<open>path.basename(p)\<close> (POSIX): trailing slashes are dropped, and the result is what
  follows the last slash that is left.
\<close>

definition basename :: "string \<Rightarrow> string" where
  "basename p = rev (takeWhile (\<lambda>c. c \<noteq> CHR ''/'') (dropWhile (\<lambda>c. c = CHR ''/'') (rev p)))"

text \<open>
  \<open>idx = id.indexOf(':'); idx < 0 ? undefined : id.slice(idx + 1)\<close>
\<close>

definition id_suffix :: "string \<Rightarrow> string option" where
  "id_suffix i = (case dropWhile (\<lambda>c. c \<noteq> CHR '':'') i of [] \<Rightarrow> None | c # r \<Rightarrow> Some r)"

subsection \<open>Protocol and host data\<close>

text \<open>
  A \<open>Uri\<close> of the host: its \<open>toString()\<close> and its \<open>path\<close>. The adapter compares
  two of them through \<open>toString()\<close> only.
\<close>

record uri =
  uri_text :: string
  uri_path :: string

text \<open>
  A JavaScript number that counts lines: a non-negative integer that a double holds, or
  \<open>Infinity\<close>. \<open>to_number n\<close> is the Number value of the integer \<open>n\<close>: \<open>n\<close> itself up
  to \<open>2^53\<close>, beyond that the nearest integer with 53 significant bits, the even one of
  two nearest, and \<open>Infinity\<close> when that is \<open>2^1024\<close>.
\<close>

datatype number = Finite nat | Infinite

fun bit_length :: "nat \<Rightarrow> nat" where
  "bit_length n = (if n = 0 then 0 else Suc (bit_length (n div 2)))"

declare bit_length.simps [simp del]

definition to_number :: "nat \<Rightarrow> number" where
  "to_number n =
     (let e = bit_length n - 53;
          q = n div 2 ^ e;
          r = n mod 2 ^ e;
          q' = (if 2 ^ e < 2 * r \<or> (2 * r = 2 ^ e \<and> odd q) then q + 1 else q)
      in if q' * 2 ^ e < 2 ^ 1024 then Finite (q' * 2 ^ e) else Infinite)"

record position =
  pos_line :: number
  pos_character :: nat

record lsp_range =
  range_start :: position
  range_end :: position

record location =
  loc_uri :: "uri option"
  loc_pos :: position

record test_message =
  msg_text :: string
  msg_location :: "location option"

datatype state = Loaded | Enqueued | Started | Passed | Failed | Skipped | Errored

datatype suite_state = SuiteLoaded | SuiteStarted | SuiteCompleted | SuiteErrored

text \<open>
  The snapshots of \<open>./protocol\<close>. A field holds what the adapter makes of it before any
  use: \<open>tc_file\<close> and \<open>ts_file\<close> are \<open>file ? Uri.parse(file) : undefined\<close>, and
  \<open>tc_range\<close> and \<open>ts_range\<close> are \<open>asRange(range)\<close> (the conversion is declared in
  \<open>./protocol\<close>, outside this file). \<open>None\<close> is \<open>undefined\<close>.
\<close>

record test_case =
  tc_id :: string
  tc_name :: string
  tc_file :: "uri option"
  tc_range :: "lsp_range option"
  tc_state :: state
  tc_stackTrace :: "string list option"

record test_suite =
  ts_name :: string
  ts_file :: "uri option"
  ts_range :: "lsp_range option"
  ts_state :: suite_state
  ts_tests :: "test_case list option"

type_synonym addr = nat

text \<open>
  A \<open>TestItem\<close> of the host. \<open>item_children\<close> is its \<open>TestItemCollection\<close>: the
  items in iteration order, at most one per id.
\<close>

record test_item =
  item_id :: string
  item_label :: string
  item_uri :: "uri option"
  item_range :: "lsp_range option"
  item_children :: "addr list"
  item_parent :: "addr option"

text \<open>One call on the \<open>TestRun\<close> handle: \<open>run.enqueued(item)\<close>, \<open>run.failed(item, messages)\<close>, ...\<close>

record report =
  rep_item :: addr
  rep_state :: state
  rep_messages :: "test_message list"

text \<open>\<open>commands.executeCommand(name, uri, selector)\<close>\<close>

record command =
  cmd_name :: string
  cmd_uri :: string
  cmd_selector :: "string option"

datatype error =
  RangeError
| TypeError
| DuplicateTestItemError string
| CommandRejected

text \<open>
  The adapter and the host objects it holds. \<open>items\<close> is \<open>testController.items\<close>;
  \<open>currentRun\<close> is the run handle, modelled by the calls made on it so far;
  \<open>itemsToRun\<close> is the \<open>Set\<close> of pending items in insertion order; \<open>ended\<close> keeps the
  calls of every run that was ended, and \<open>executed\<close> the commands sent to the server.
\<close>

record adapter =
  heap :: "test_item list"
  items :: "addr list"
  currentRun :: "report list option"
  itemsToRun :: "addr list option"
  ended :: "report list list"
  executed :: "command list"

subsection \<open>Control flow with exceptions\<close>

text \<open>
  \<open>xs.forEach(f)\<close> where \<open>f\<close> may throw: the first exception ends the iteration, with
  the state reached.
\<close>

fun forEach :: "('a \<Rightarrow> 's \<Rightarrow> error option \<times> 's) \<Rightarrow> 'a list \<Rightarrow> 's \<Rightarrow> error option \<times> 's" where
  "forEach f [] s = (None, s)"
| "forEach f (x # xs) s =
     (case f x s of
        (None, s') \<Rightarrow> forEach f xs s'
      | (Some e, s') \<Rightarrow> (Some e, s'))"

subsection \<open>The host's test items and collections\<close>

definition createTestItem :: "adapter \<Rightarrow> string \<Rightarrow> string \<Rightarrow> uri option \<Rightarrow> addr \<times> adapter" where
  "createTestItem s i l u =
     (length (heap s),
      s\<lparr>heap := heap s @
          [\<lparr>item_id = i, item_label = l, item_uri = u, item_range = None,
            item_children = [], item_parent = None\<rparr>]\<rparr>)"

text \<open>\<open>collection.get(id)\<close>\<close>

definition coll_get :: "test_item list \<Rightarrow> addr list \<Rightarrow> string \<Rightarrow> addr option" where
  "coll_get h xs i = find (\<lambda>x. item_id (h ! x) = i) xs"

text \<open>
  \<open>collection.add(item)\<close>: an item of the same id is replaced where it stands, a new id
  goes last.
\<close>

definition coll_add :: "test_item list \<Rightarrow> addr list \<Rightarrow> addr \<Rightarrow> addr list" where
  "coll_add h xs a =
     (if coll_get h xs (item_id (h ! a)) = None then xs @ [a]
      else map (\<lambda>x. if item_id (h ! x) = item_id (h ! a) then a else x) xs)"

definition set_range :: "adapter \<Rightarrow> addr \<Rightarrow> lsp_range option \<Rightarrow> adapter" where
  "set_range s a r = s\<lparr>heap := (heap s)[a := (heap s ! a)\<lparr>item_range := r\<rparr>]\<rparr>"

definition set_parent :: "addr \<Rightarrow> addr \<Rightarrow> test_item list \<Rightarrow> test_item list" where
  "set_parent owner a h = h[a := (h ! a)\<lparr>item_parent := Some owner\<rparr>]"

text \<open>\<open>owner.children.add(item)\<close>; the host makes \<open>owner\<close> the item's parent.\<close>

definition children_add :: "adapter \<Rightarrow> addr \<Rightarrow> addr \<Rightarrow> adapter" where
  "children_add s owner a =
     (let h = heap s;
          h1 = h[owner := (h ! owner)\<lparr>item_children := coll_add h (item_children (h ! owner)) a\<rparr>]
      in s\<lparr>heap := set_parent owner a h1\<rparr>)"

text \<open>
  \<open>owner.children.replace(items)\<close>: the host goes through \<open>items\<close> and refuses the
  first one whose id it has met before (\<open>DuplicateTestItemError\<close> with that id), and then
  changes nothing; otherwise the collection holds exactly \<open>items\<close>, each with \<open>owner\<close>
  as its parent. \<open>first_repeat seen ids\<close> is the first id of \<open>ids\<close> that is in \<open>seen\<close> or
  stands earlier in \<open>ids\<close>.
\<close>

fun first_repeat :: "string list \<Rightarrow> string list \<Rightarrow> string option" where
  "first_repeat seen [] = None"
| "first_repeat seen (i # ids) = (if i \<in> set seen then Some i else first_repeat (i # seen) ids)"

definition children_replace :: "adapter \<Rightarrow> addr \<Rightarrow> addr list \<Rightarrow> error option \<times> adapter" where
  "children_replace s owner xs =
     (let h = heap s; ids = map (\<lambda>x. item_id (h ! x)) xs
      in case first_repeat [] ids of
           Some i \<Rightarrow> (Some (DuplicateTestItemError i), s)
         | None \<Rightarrow>
             (None, s\<lparr>heap := fold (set_parent owner) xs
                                (h[owner := (h ! owner)\<lparr>item_children := xs\<rparr>])\<rparr>))"

text \<open>\<open>testController.items.add(item)\<close>; a top-level item has no parent.\<close>

definition items_add :: "adapter \<Rightarrow> addr \<Rightarrow> adapter" where
  "items_add s a = s\<lparr>items := coll_add (heap s) (items s) a\<rparr>"

subsection \<open>set: reporting a state to the run\<close>

text \<open>The \<open>Set\<close> operations on \<open>itemsToRun\<close>.\<close>

definition set_add :: "addr \<Rightarrow> addr list \<Rightarrow> addr list" where
  "set_add a xs = (if a \<in> set xs then xs else xs @ [a])"

definition set_delete :: "addr \<Rightarrow> addr list \<Rightarrow> addr list" where
  "set_delete a xs = removeAll a xs"

text \<open>
  The \<open>switch\<close> of \<open>set\<close>, for an active run whose calls so far are \<open>log\<close>.
  \<open>message || new TestMessage('')\<close>: an absent message becomes the empty one; a single
  message and an array of messages are both a list here.
\<close>

definition report_state :: "adapter \<Rightarrow> report list \<Rightarrow> addr \<Rightarrow> state \<Rightarrow> test_message list option \<Rightarrow> adapter" where
  "report_state s log a st m =
     (case st of
        Loaded \<Rightarrow> s
      | Enqueued \<Rightarrow>
          s\<lparr>itemsToRun := map_option (set_add a) (itemsToRun s),
            currentRun := Some (log @ [\<lparr>rep_item = a, rep_state = Enqueued, rep_messages = []\<rparr>])\<rparr>
      | Started \<Rightarrow>
          s\<lparr>itemsToRun := map_option (set_delete a) (itemsToRun s),
            currentRun := Some (log @ [\<lparr>rep_item = a, rep_state = Started, rep_messages = []\<rparr>])\<rparr>
      | Passed \<Rightarrow>
          s\<lparr>itemsToRun := map_option (set_delete a) (itemsToRun s),
            currentRun := Some (log @ [\<lparr>rep_item = a, rep_state = Passed, rep_messages = []\<rparr>])\<rparr>
      | Skipped \<Rightarrow>
          s\<lparr>itemsToRun := map_option (set_delete a) (itemsToRun s),
            currentRun := Some (log @ [\<lparr>rep_item = a, rep_state = Skipped, rep_messages = []\<rparr>])\<rparr>
      | Failed \<Rightarrow>
          s\<lparr>itemsToRun := map_option (set_delete a) (itemsToRun s),
            currentRun := Some (log @ [\<lparr>rep_item = a, rep_state = Failed,
              rep_messages = (case m of None \<Rightarrow> [\<lparr>msg_text = [], msg_location = None\<rparr>] | Some ms \<Rightarrow> ms)\<rparr>])\<rparr>
      | Errored \<Rightarrow>
          s\<lparr>itemsToRun := map_option (set_delete a) (itemsToRun s),
            currentRun := Some (log @ [\<lparr>rep_item = a, rep_state = Errored,
              rep_messages = (case m of None \<Rightarrow> [\<lparr>msg_text = [], msg_location = None\<rparr>] | Some ms \<Rightarrow> ms)\<rparr>])\<rparr>)"

text \<open>
  \<open>set(item, state, message, noPassDown)\<close>. The recursion follows the children held in
  the store, which nothing forces to be a tree: the first argument bounds the depth of
  the calls, and a call that would go deeper throws \<open>RangeError\<close>, as the engine does
  when its stack is used up.
\<close>

primrec set_state :: "nat \<Rightarrow> adapter \<Rightarrow> addr \<Rightarrow> state \<Rightarrow> test_message list option \<Rightarrow> bool \<Rightarrow> error option \<times> adapter" where
  "set_state 0 s a st m noPassDown = (Some RangeError, s)"
| "set_state (Suc d) s a st m noPassDown =
     (case currentRun s of
        None \<Rightarrow> (None, s)
      | Some log \<Rightarrow>
          (let s1 = report_state s log a st m
           in if noPassDown then (None, s1)
              else forEach (\<lambda>child s'. set_state d s' child st m noPassDown)
                     (item_children (heap s1 ! a)) s1))"

subsection \<open>updateTests: merging a reported suite into the tree\<close>

text \<open>\<open>a?.toString() !== b?.toString()\<close> is the negation of:\<close>

definition same_uri :: "uri option \<Rightarrow> uri option \<Rightarrow> bool" where
  "same_uri a b = (map_option uri_text a = map_option uri_text b)"

text \<open>\<open>Map.prototype.set\<close>: a known key keeps its place, a new key goes last.\<close>

primrec map_set :: "'k \<Rightarrow> 'v \<Rightarrow> ('k \<times> 'v) list \<Rightarrow> ('k \<times> 'v) list" where
  "map_set k v [] = [(k, v)]"
| "map_set k v (p # ps) = (if fst p = k then (k, v) # ps else p # map_set k v ps)"

text \<open>
  The suite item the call works on: the registered one, or a new one when there is none
  or when the snapshot names a file whose URI differs.
\<close>

definition new_suite :: "adapter \<Rightarrow> test_suite \<Rightarrow> addr \<times> adapter" where
  "new_suite s suite =
     (case createTestItem s (ts_name suite) (ts_name suite) (ts_file suite) of
        (n, s1) \<Rightarrow> (n, items_add s1 n))"

definition current_suite :: "adapter \<Rightarrow> test_suite \<Rightarrow> addr \<times> adapter" where
  "current_suite s suite =
     (case coll_get (heap s) (items s) (ts_name suite) of
        None \<Rightarrow> new_suite s suite
      | Some c \<Rightarrow>
          if ts_file suite \<noteq> None \<and> \<not> same_uri (item_uri (heap s ! c)) (ts_file suite)
          then new_suite s suite
          else (c, s))"

text \<open>The label of a test nested under an inferred parent, from its reported name.\<close>

definition dynamic_label :: "string \<Rightarrow> string \<Rightarrow> string" where
  "dynamic_label name parent_label =
     (if startsWith name parent_label then trim (drop (length parent_label) name) else name)"

text \<open>
  The body of \<open>suite.tests.forEach\<close> for one reported test, on the store, the array
  \<open>children\<close> and the map \<open>parentTests\<close>.
\<close>

definition update_test ::
  "bool \<Rightarrow> addr \<Rightarrow> test_case \<Rightarrow> adapter \<times> addr list \<times> (addr \<times> addr list) list
     \<Rightarrow> adapter \<times> addr list \<times> (addr \<times> addr list) list" where
  "update_test testExecution cs t acc =
     (case acc of (s, children, parentTests) \<Rightarrow>
        (case coll_get (heap s) (item_children (heap s ! cs)) (tc_id t) of
           Some ct \<Rightarrow>
             (case (if \<not> same_uri (item_uri (heap s ! ct)) (tc_file t)
                    then (case createTestItem s (tc_id t) (tc_name t) (tc_file t) of
                            (n, s0) \<Rightarrow> (n, children_add s0 cs n))
                    else (ct, s)) of
                (currentTest, s1) \<Rightarrow>
                  (if \<not> testExecution \<and> tc_range t \<noteq> None
                   then set_range s1 currentTest (tc_range t) else s1,
                   children @ [currentTest], parentTests))
         | None \<Rightarrow>
             if testExecution then
               (case filter (\<lambda>x. startsWith (tc_id t) (item_id (heap s ! x)))
                       (item_children (heap s ! cs)) of
                  [p] \<Rightarrow>
                    (case createTestItem s (tc_id t)
                            (dynamic_label (tc_name t) (item_label (heap s ! p))) None of
                       (n, s1) \<Rightarrow>
                         (case map_of parentTests p of
                            None \<Rightarrow> (s1, children @ [p], map_set p [n] parentTests)
                          | Some arr \<Rightarrow> (s1, children, map_set p (arr @ [n]) parentTests)))
                | _ \<Rightarrow> (s, children, parentTests))
             else
               (case createTestItem s (tc_id t) (tc_name t) (tc_file t) of
                  (n, s1) \<Rightarrow>
                    (children_add (set_range s1 n (tc_range t)) cs n,
                     children @ [n], parentTests))))"

text \<open>
  The body of \<open>parentTests.forEach\<close>: a new item with the id, label, URI and range of
  the inferred parent takes the collected tests as its children and is added to the
  suite, where it takes the place of the parent.
\<close>

definition nest_parent :: "addr \<Rightarrow> addr \<times> addr list \<Rightarrow> adapter \<Rightarrow> error option \<times> adapter" where
  "nest_parent cs kv s =
     (case kv of (key, val) \<Rightarrow>
        (case createTestItem s (item_id (heap s ! key)) (item_label (heap s ! key))
                (item_uri (heap s ! key)) of
           (n, s1) \<Rightarrow>
             (case children_replace (set_range s1 n (item_range (heap s ! key))) n val of
                (Some e, s2) \<Rightarrow> (Some e, s2)
              | (None, s2) \<Rightarrow> (None, children_add s2 cs n))))"

definition updateTests :: "adapter \<Rightarrow> test_suite \<Rightarrow> bool \<Rightarrow> error option \<times> adapter" where
  "updateTests s suite testExecution =
     (case current_suite s suite of
        (cs, s1) \<Rightarrow>
          (case fold (update_test testExecution cs)
                  (case ts_tests suite of None \<Rightarrow> [] | Some ts \<Rightarrow> ts)
                  (if \<not> testExecution \<and> ts_range suite \<noteq> None
                   then set_range s1 cs (ts_range suite) else s1, [], []) of
             (s2, children, parentTests) \<Rightarrow>
               if testExecution then forEach (nest_parent cs) parentTests s2
               else children_replace s2 cs children))"

subsection \<open>Locating a failure in the source\<close>

text \<open>
  \<open>frame.match(/^\s*at[^\(]*\((\S*):(\d*)\)$/)\<close>, giving the two groups. After the
  leading white space and \<open>at\<close>, the first \<open>(\<close> opens the match; the text after it
  must end in \<open>)\<close>, and what stands before that is split at the colon that precedes its
  longest run of final digits; the first group holds no white space.
\<close>

definition frame_match :: "string \<Rightarrow> (string \<times> string) option" where
  "frame_match frame =
     (let s1 = dropWhile is_space frame in
      if \<not> startsWith s1 ''at'' then None
      else case dropWhile (\<lambda>c. c \<noteq> CHR ''('') (drop 2 s1) of
             [] \<Rightarrow> None
           | c # r \<Rightarrow>
               if r = [] \<or> last r \<noteq> CHR '')'' then None
               else let x = butlast r;
                        ds = rev (takeWhile is_digit (rev x));
                        rest = rev (dropWhile is_digit (rev x))
                    in if rest = [] \<or> last rest \<noteq> CHR '':'' then None
                       else if list_all (\<lambda>c. \<not> is_space c) (butlast rest)
                            then Some (butlast rest, ds) else None)"

text \<open>
  \<open>parseInt\<close> of a string of decimal digits (the second group of the expression holds
  nothing else): \<open>None\<close> is \<open>NaN\<close> (no digit at all), otherwise the Number value of the
  integer that the digits write, \<open>decimal ds\<close>. ECMAScript lets an implementation read
  the digits after the twentieth as \<open>0\<close>; the value taken here is the correctly rounded
  one, and up to \<open>2^53\<close> (sixteen digits at most) there is nothing to round.
\<close>

definition decimal :: "string \<Rightarrow> nat" where
  "decimal ds = foldl (\<lambda>n c. 10 * n + (of_char c - 48)) 0 ds"

definition parseInt :: "string \<Rightarrow> number option" where
  "parseInt ds = (if ds = [] then None else Some (to_number (decimal ds)))"

text \<open>The callback of \<open>stackTrace.map\<close>: the line of a frame in the file, or \<open>null\<close>.\<close>

definition frame_line :: "string \<Rightarrow> string \<Rightarrow> number option" where
  "frame_line fileName frame =
     (case frame_match frame of
        None \<Rightarrow> None
      | Some (f, ds) \<Rightarrow> if f = fileName then parseInt ds else None)"

text \<open>\<open>.find(l => l)\<close>: the first entry that is neither \<open>null\<close>, \<open>NaN\<close> nor \<open>0\<close>.\<close>

definition stack_line :: "string \<Rightarrow> string list \<Rightarrow> number option" where
  "stack_line fileName stackTrace =
     (case find (\<lambda>l. case l of None \<Rightarrow> False | Some n \<Rightarrow> n \<noteq> Finite 0)
             (map (frame_line fileName) stackTrace) of
        None \<Rightarrow> None
      | Some l \<Rightarrow> l)"

text \<open>\<open>currentTest.uri || currentTest.parent?.uri\<close>\<close>

definition test_uri :: "test_item list \<Rightarrow> addr \<Rightarrow> uri option" where
  "test_uri h ct =
     (case item_uri (h ! ct) of
        Some u \<Rightarrow> Some u
      | None \<Rightarrow> (case item_parent (h ! ct) of None \<Rightarrow> None | Some p \<Rightarrow> item_uri (h ! p)))"

text \<open>
  \<open>line - 1\<close> for a line that \<open>find\<close> gave: the Number value of the difference, and
  \<open>Infinity\<close> for \<open>Infinity\<close>. The line is never \<open>0\<close> there (\<open>find\<close> skips it), so
  the negative \<open>0 - 1\<close>, which \<open>number\<close> does not hold, does not occur; the value written
  for \<open>Finite 0\<close> is not used.
\<close>

definition minus_one :: "number \<Rightarrow> number" where
  "minus_one l = (case l of Infinite \<Rightarrow> Infinite | Finite n \<Rightarrow> to_number (n - 1))"

text \<open>The location given to the message of a result that has a tree item.\<close>

definition test_location :: "test_item list \<Rightarrow> addr \<Rightarrow> string list \<Rightarrow> location option" where
  "test_location h ct stackTrace =
     (case test_uri h ct of
        None \<Rightarrow> None
      | Some testUri \<Rightarrow>
          (case (case stack_line (basename (uri_path testUri)) stackTrace of
                   Some line \<Rightarrow> Some \<lparr>pos_line = minus_one line, pos_character = 0\<rparr>
                 | None \<Rightarrow> map_option range_start (item_range (h ! ct))) of
             None \<Rightarrow> None
           | Some pos \<Rightarrow> Some \<lparr>loc_uri = Some testUri, loc_pos = pos\<rparr>))"

text \<open>
  The message of one result. Without a tree item the location is the suite's:
  \<open>new Location(currentSuite.uri!, currentSuite.range!.start)\<close> throws \<open>TypeError\<close>
  when the suite has no range.
\<close>

definition result_message :: "test_item list \<Rightarrow> addr \<Rightarrow> addr option \<Rightarrow> test_case \<Rightarrow> error + test_message option" where
  "result_message h cs currentTest t =
     (case tc_stackTrace t of
        None \<Rightarrow> Inr None
      | Some stackTrace \<Rightarrow>
          (case currentTest of
             Some ct \<Rightarrow>
               Inr (Some \<lparr>msg_text = join_lines stackTrace,
                          msg_location = test_location h ct stackTrace\<rparr>)
           | None \<Rightarrow>
               (case item_range (h ! cs) of
                  None \<Rightarrow> Inl TypeError
                | Some r \<Rightarrow>
                    Inr (Some \<lparr>msg_text = join_lines stackTrace,
                               msg_location = Some \<lparr>loc_uri = item_uri (h ! cs),
                                                     loc_pos = range_start r\<rparr>\<rparr>))))"

subsection \<open>testProgress: a suite event of the server\<close>

text \<open>
  The tree item of a result: the suite's child of that id, else the child of that id of
  the first child of the suite whose id is a prefix and that has one.
\<close>

definition find_test :: "test_item list \<Rightarrow> addr \<Rightarrow> string \<Rightarrow> addr option" where
  "find_test h cs i =
     (case coll_get h (item_children (h ! cs)) i of
        Some x \<Rightarrow> Some x
      | None \<Rightarrow>
          fold (\<lambda>item currentTest.
                  if currentTest = None \<and> startsWith i (item_id (h ! item))
                  then coll_get h (item_children (h ! item)) i else currentTest)
               (item_children (h ! cs)) None)"

text \<open>The body of \<open>suite.tests.forEach\<close> in \<open>testProgress\<close>, on the store and \<open>suiteMessages\<close>.\<close>

definition progress_test ::
  "nat \<Rightarrow> addr \<Rightarrow> test_case \<Rightarrow> adapter \<times> test_message list
     \<Rightarrow> error option \<times> (adapter \<times> test_message list)" where
  "progress_test d cs t acc =
     (case acc of (s, suiteMessages) \<Rightarrow>
        if currentRun s = None then (None, (s, suiteMessages))
        else
          (case result_message (heap s) cs (find_test (heap s) cs (tc_id t)) t of
             Inl e \<Rightarrow> (Some e, (s, suiteMessages))
           | Inr message \<Rightarrow>
               (case (if tc_state t \<noteq> Loaded then find_test (heap s) cs (tc_id t) else None) of
                  Some ct \<Rightarrow>
                    (case set_state d s ct (tc_state t) (map_option (\<lambda>m. [m]) message) True of
                       (e, s') \<Rightarrow> (e, (s', suiteMessages)))
                | None \<Rightarrow>
                    (case message of
                       None \<Rightarrow> (None, (s, suiteMessages))
                     | Some m \<Rightarrow>
                         if tc_state t \<noteq> Passed then (None, (s, suiteMessages @ [m]))
                         else (None, (s, suiteMessages))))))"

definition testProgress :: "nat \<Rightarrow> adapter \<Rightarrow> test_suite \<Rightarrow> error option \<times> adapter" where
  "testProgress d s suite =
     (let currentSuite = coll_get (heap s) (items s) (ts_name suite) in
      case ts_state suite of
        SuiteLoaded \<Rightarrow> updateTests s suite False
      | SuiteStarted \<Rightarrow>
          (case currentSuite of
             None \<Rightarrow> (None, s)
           | Some cs \<Rightarrow> set_state d s cs Started None False)
      | _ \<Rightarrow>
          (case ts_tests suite of
             None \<Rightarrow> (None, s)
           | Some tests \<Rightarrow>
               (case updateTests s suite True of
                  (Some e, s1) \<Rightarrow> (Some e, s1)
                | (None, s1) \<Rightarrow>
                    (case currentSuite of
                       None \<Rightarrow> (None, s1)
                     | Some cs \<Rightarrow>
                         (case forEach (progress_test d cs) tests (s1, []) of
                            (Some e, (s2, suiteMessages)) \<Rightarrow> (Some e, s2)
                          | (None, (s2, suiteMessages)) \<Rightarrow>
                              if suiteMessages \<noteq> [] then
                                (case set_state d s2 cs Errored (Some suiteMessages) True of
                                   (Some e, s3) \<Rightarrow> (Some e, s3)
                                 | (None, s3) \<Rightarrow>
                                     forEach (\<lambda>item s'. set_state d s' item Skipped None False)
                                       (item_children (heap s3 ! cs)) s3)
                              else (None, s2))))))"

subsection \<open>run: one run session\<close>

text \<open>
  A run request: the selected items (\<open>request.include\<close>) and whether the profile is the
  debug one. What the server does while a command is awaited is a \<open>response\<close>: the suite
  events it sends (each one a call of \<open>testProgress\<close>, whose exception, if any, is
  the notification handler's and not the run's), whether the command is rejected in the end,
  and whether cancellation was requested meanwhile. A command that finds no response
  left gets the empty one.
\<close>

record run_request =
  req_include :: "addr list option"
  req_debug :: bool

record response =
  resp_events :: "test_suite list"
  resp_rejected :: bool
  resp_cancel :: bool

definition await_command ::
  "nat \<Rightarrow> command \<Rightarrow> adapter \<times> response list \<times> bool
     \<Rightarrow> error option \<times> (adapter \<times> response list \<times> bool)" where
  "await_command d c acc =
     (case acc of (s, responses, cancelled) \<Rightarrow>
        (case responses of
           [] \<Rightarrow> (None, (s\<lparr>executed := executed s @ [c]\<rparr>, [], cancelled))
         | r # rs \<Rightarrow>
             (if resp_rejected r then Some CommandRejected else None,
              (fold (\<lambda>suite s'. snd (testProgress d s' suite)) (resp_events r)
                 (s\<lparr>executed := executed s @ [c]\<rparr>),
               rs, cancelled \<or> resp_cancel r))))"

text \<open>
  The selection without duplicates:
  \<open>[...new Map(include.map(item => !item.uri && item.parent?.uri ? [item.parent.id, item.parent] : [item.id, item])).values()]\<close>
\<close>

definition selection_entry :: "test_item list \<Rightarrow> addr \<Rightarrow> string \<times> addr" where
  "selection_entry h a =
     (case item_uri (h ! a) of
        Some u \<Rightarrow> (item_id (h ! a), a)
      | None \<Rightarrow>
          (case item_parent (h ! a) of
             None \<Rightarrow> (item_id (h ! a), a)
           | Some p \<Rightarrow>
               if item_uri (h ! p) \<noteq> None then (item_id (h ! p), p) else (item_id (h ! a), a)))"

definition selection :: "test_item list \<Rightarrow> addr list \<Rightarrow> addr list" where
  "selection h include =
     map snd (fold (\<lambda>a m. map_set (fst (selection_entry h a)) (snd (selection_entry h a)) m) include [])"

text \<open>The body of the loop over the selection.\<close>

definition run_single ::
  "nat \<Rightarrow> bool \<Rightarrow> addr \<Rightarrow> adapter \<times> response list \<times> bool
     \<Rightarrow> error option \<times> (adapter \<times> response list \<times> bool)" where
  "run_single d dbg item acc =
     (case acc of (s, responses, cancelled) \<Rightarrow>
        (case item_uri (heap s ! item) of
           None \<Rightarrow> (None, (s, responses, cancelled))
         | Some u \<Rightarrow>
             (case set_state d s item Enqueued None False of
                (Some e, s1) \<Rightarrow> (Some e, (s1, responses, cancelled))
              | (None, s1) \<Rightarrow>
                  await_command d
                    \<lparr>cmd_name = (if dbg then ''java.debug.single'' else ''java.run.single''),
                     cmd_uri = uri_text u,
                     cmd_selector = id_suffix (item_id (heap s1 ! item))\<rparr>
                    (s1, responses, cancelled))))"

text \<open>The body of the loop over the workspace folders, each given by its URI.\<close>

definition run_folder ::
  "nat \<Rightarrow> bool \<Rightarrow> string \<Rightarrow> adapter \<times> response list \<times> bool
     \<Rightarrow> error option \<times> (adapter \<times> response list \<times> bool)" where
  "run_folder d dbg folder acc =
     (case acc of (s, responses, cancelled) \<Rightarrow>
        if cancelled then (None, (s, responses, cancelled))
        else await_command d
               \<lparr>cmd_name = (if dbg then ''java.debug.test'' else ''java.run.test''),
                cmd_uri = folder, cmd_selector = None\<rparr>
               (s, responses, cancelled))"

text \<open>
  The end of \<open>run\<close>. \<open>itemsToRun.forEach(item => this.set(item, 'skipped'))\<close> visits
  the items in insertion order and leaves out those that were deleted from the set
  before their turn.
\<close>

definition skip_pending :: "nat \<Rightarrow> addr \<Rightarrow> adapter \<Rightarrow> error option \<times> adapter" where
  "skip_pending d item s =
     (if item \<in> set (case itemsToRun s of None \<Rightarrow> [] | Some xs \<Rightarrow> xs)
      then set_state d s item Skipped None False else (None, s))"

definition close_out :: "nat \<Rightarrow> adapter \<Rightarrow> error option \<times> adapter" where
  "close_out d s =
     (case itemsToRun s of
        None \<Rightarrow> (Some TypeError, s)
      | Some pending \<Rightarrow>
          (case forEach (skip_pending d) pending s of
             (Some e, s1) \<Rightarrow> (Some e, s1)
           | (None, s1) \<Rightarrow>
               (case currentRun s1 of
                  None \<Rightarrow> (Some TypeError, s1\<lparr>itemsToRun := None\<rparr>)
                | Some log \<Rightarrow>
                    (None, s1\<lparr>itemsToRun := None, ended := ended s1 @ [log],
                              currentRun := None\<rparr>))))"

text \<open>
  \<open>run(request, cancellation)\<close>, with the folders of the workspace and the responses of
  the server to the commands it sends, in order. \<open>cancellation\<close> is
  \<open>isCancellationRequested\<close> at the call.
\<close>

definition run ::
  "nat \<Rightarrow> adapter \<Rightarrow> run_request \<Rightarrow> bool \<Rightarrow> string list \<Rightarrow> response list
     \<Rightarrow> error option \<times> adapter" where
  "run d s request cancellation folders responses =
     (let s0 = s\<lparr>currentRun := Some [], itemsToRun := Some []\<rparr> in
      case (case req_include request of
              Some include \<Rightarrow>
                forEach (run_single d (req_debug request)) (selection (heap s0) include)
                  (s0, responses, cancellation)
            | None \<Rightarrow>
                (case forEach (\<lambda>item s'. set_state d s' item Enqueued None False) (items s0) s0 of
                   (Some e, s1) \<Rightarrow> (Some e, (s1, responses, cancellation))
                 | (None, s1) \<Rightarrow>
                     forEach (run_folder d (req_debug request)) folders
                       (s1, responses, cancellation))) of
        (Some e, (s1, rest)) \<Rightarrow> (Some e, s1)
      | (None, (s1, rest)) \<Rightarrow> close_out d s1)"

section \<open>Notions used in the statements\<close>

subsection \<open>What a call leaves as it was\<close>

text \<open>
  \<open>keeps f s s'\<close>: every item of \<open>s\<close> is still there in \<open>s'\<close> with the same \<open>f\<close>;
  \<open>link_free f\<close>: \<open>f\<close> does not read the links (children, parent) of an item.
\<close>

definition keeps :: "(test_item \<Rightarrow> 'a) \<Rightarrow> adapter \<Rightarrow> adapter \<Rightarrow> bool" where
  "keeps f s s' \<longleftrightarrow>
     length (heap s) \<le> length (heap s') \<and> (\<forall>a < length (heap s). f (heap s' ! a) = f (heap s ! a))"

definition link_free :: "(test_item \<Rightarrow> 'a) \<Rightarrow> bool" where
  "link_free f \<longleftrightarrow>
     (\<forall>it cs. f (it\<lparr>item_children := cs\<rparr>) = f it) \<and> (\<forall>it p. f (it\<lparr>item_parent := p\<rparr>) = f it)"

definition parent_free :: "(test_item \<Rightarrow> 'a) \<Rightarrow> bool" where
  "parent_free f \<longleftrightarrow> (\<forall>it p. f (it\<lparr>item_parent := p\<rparr>) = f it)"

definition range_free :: "(test_item \<Rightarrow> 'a) \<Rightarrow> bool" where
  "range_free f \<longleftrightarrow> (\<forall>it r. f (it\<lparr>item_range := r\<rparr>) = f it)"

text \<open>\<open>run_kept s s'\<close>: the run session and the commands sent are the same in \<open>s'\<close> as in \<open>s\<close>.\<close>

definition run_kept :: "adapter \<Rightarrow> adapter \<Rightarrow> bool" where
  "run_kept s s' \<longleftrightarrow>
     currentRun s' = currentRun s \<and> itemsToRun s' = itemsToRun s \<and> ended s' = ended s \<and>
     executed s' = executed s"

subsection \<open>Subtrees\<close>

text \<open>
  The descendants of an item in a store (the item itself included);
  \<open>depth_le h d a\<close>: below \<open>a\<close> there are fewer than \<open>d\<close> levels of children, so that
  \<open>d\<close> nested calls reach all of it; \<open>subtree h d a\<close>: the items below \<open>a\<close> in the order
  \<open>set\<close> visits them.
\<close>

inductive_set descendants :: "test_item list \<Rightarrow> addr \<Rightarrow> addr set" for h :: "test_item list" and a :: addr where
  self: "a \<in> descendants h a"
| child: "b \<in> descendants h a \<Longrightarrow> c \<in> set (item_children (h ! b)) \<Longrightarrow> c \<in> descendants h a"

primrec depth_le :: "test_item list \<Rightarrow> nat \<Rightarrow> addr \<Rightarrow> bool" where
  "depth_le h 0 a = False"
| "depth_le h (Suc d) a = (\<forall>c \<in> set (item_children (h ! a)). depth_le h d c)"

primrec subtree :: "test_item list \<Rightarrow> nat \<Rightarrow> addr \<Rightarrow> addr list" where
  "subtree h 0 a = []"
| "subtree h (Suc d) a = a # concat (map (subtree h d) (item_children (h ! a)))"

subsection \<open>Calls on the run handle\<close>

text \<open>The messages the host receives with a state: those given, or the empty message.\<close>

definition messages_of :: "state \<Rightarrow> test_message list option \<Rightarrow> test_message list" where
  "messages_of st m =
     (if st = Failed \<or> st = Errored
      then (case m of None \<Rightarrow> [\<lparr>msg_text = [], msg_location = None\<rparr>] | Some ms \<Rightarrow> ms)
      else [])"

text \<open>The state \<open>st\<close> reported for the items \<open>bs\<close>, one after the other.\<close>

definition apply_reports :: "adapter \<Rightarrow> addr list \<Rightarrow> state \<Rightarrow> test_message list option \<Rightarrow> adapter" where
  "apply_reports s bs st m =
     (if st = Loaded then s
      else s\<lparr>itemsToRun :=
               map_option (fold (if st = Enqueued then set_add else set_delete) bs) (itemsToRun s),
             currentRun :=
               map_option (\<lambda>log. log @ map (\<lambda>b. \<lparr>rep_item = b, rep_state = st,
                                                  rep_messages = messages_of st m\<rparr>) bs)
                 (currentRun s)\<rparr>)"

text \<open>The state of an item in a run: that of the last call that names it.\<close>

definition last_state :: "report list \<Rightarrow> addr \<Rightarrow> state option" where
  "last_state log a =
     (case filter (\<lambda>r. rep_item r = a) log of [] \<Rightarrow> None | r # rs \<Rightarrow> Some (rep_state (last (r # rs))))"

subsection \<open>A small tree\<close>

text \<open>
  The suite \<open>S\<close> of the file \<open>FooTest.java\<close> (item 0) with its one test \<open>caseA\<close>
  (item 1), as a first \<open>updateTests\<close> leaves them; no run is active.
\<close>

definition ex_uri :: uri where
  "ex_uri = \<lparr>uri_text = ''file:///p/FooTest.java'', uri_path = ''/p/FooTest.java''\<rparr>"

definition ex_range :: lsp_range where
  "ex_range = \<lparr>range_start = \<lparr>pos_line = Finite 3, pos_character = 0\<rparr>,
               range_end = \<lparr>pos_line = Finite 9, pos_character = 1\<rparr>\<rparr>"

definition ex_range2 :: lsp_range where
  "ex_range2 = \<lparr>range_start = \<lparr>pos_line = Finite 5, pos_character = 4\<rparr>,
                range_end = \<lparr>pos_line = Finite 7, pos_character = 5\<rparr>\<rparr>"

definition ex_adapter :: adapter where
  "ex_adapter =
     \<lparr>heap =
        [\<lparr>item_id = ''S'', item_label = ''S'', item_uri = Some ex_uri, item_range = Some ex_range,
          item_children = [1], item_parent = None\<rparr>,
         \<lparr>item_id = ''caseA'', item_label = ''caseA'', item_uri = Some ex_uri,
          item_range = Some ex_range2, item_children = [], item_parent = Some 0\<rparr>],
      items = [0], currentRun = None, itemsToRun = None, ended = [], executed = []\<rparr>"

text \<open>The result of \<open>caseA\<close> and the suite event that carries it.\<close>

definition ex_caseA :: test_case where
  "ex_caseA = \<lparr>tc_id = ''caseA'', tc_name = ''caseA'', tc_file = Some ex_uri,
               tc_range = Some ex_range, tc_state = Passed, tc_stackTrace = None\<rparr>"

definition ex_suite :: test_suite where
  "ex_suite = \<lparr>ts_name = ''S'', ts_file = Some ex_uri, ts_range = Some ex_range2,
               ts_state = SuiteCompleted, ts_tests = Some [ex_caseA]\<rparr>"

text \<open>A test that is reported during a run only, a case of \<open>caseA\<close>.\<close>

definition ex_dynamic :: test_case where
  "ex_dynamic = \<lparr>tc_id = ''caseA[1]'', tc_name = ''caseA [1]'', tc_file = None,
                 tc_range = None, tc_state = Failed, tc_stackTrace = None\<rparr>"

text \<open>The same tree while a run is active, before any call on the run handle.\<close>

definition ex_running :: adapter where
  "ex_running = ex_adapter\<lparr>currentRun := Some [], itemsToRun := Some []\<rparr>"

subsection \<open>Stack frames\<close>

text \<open>
  What the regular expression \<open>/^\s*at[^\(]*\((\S*):(\d*)\)$/\<close> says of a line: white
  space, \<open>at\<close>, any text without \<open>(\<close>, then \<open>(file:digits)\<close> up to the end of the
  line, the file holding no white space.
\<close>

definition frame_pattern :: "string \<Rightarrow> string \<Rightarrow> string \<Rightarrow> bool" where
  "frame_pattern frame file digits \<longleftrightarrow>
     (\<exists>ws mid. frame = ws @ ''at'' @ mid @ ''('' @ file @ '':'' @ digits @ '')'' \<and>
        list_all is_space ws \<and> CHR ''('' \<notin> set mid \<and>
        list_all (\<lambda>c. \<not> is_space c) file \<and> list_all is_digit digits)"

text \<open>No frame of the list names the file with a line number that counts (not zero).\<close>

definition no_line :: "string \<Rightarrow> string list \<Rightarrow> bool" where
  "no_line file frames \<longleftrightarrow>
     (\<forall>g \<in> set frames. \<forall>ds. frame_pattern g file ds \<longrightarrow> parseInt ds = None \<or> parseInt ds = Some (Finite 0))"

text \<open>
  The small tree with a test that has no range, during a run, and two failures of
  \<open>caseA\<close>: one whose trace never reaches \<open>FooTest.java\<close>, one that does at line 12.
\<close>

definition ex_unranged :: adapter where
  "ex_unranged =
     \<lparr>heap =
        [\<lparr>item_id = ''S'', item_label = ''S'', item_uri = Some ex_uri, item_range = Some ex_range,
          item_children = [1], item_parent = None\<rparr>,
         \<lparr>item_id = ''caseA'', item_label = ''caseA'', item_uri = Some ex_uri,
          item_range = None, item_children = [], item_parent = Some 0\<rparr>],
      items = [0], currentRun = Some [], itemsToRun = Some [], ended = [], executed = []\<rparr>"

definition ex_failure :: test_case where
  "ex_failure = \<lparr>tc_id = ''caseA'', tc_name = ''caseA'', tc_file = Some ex_uri,
                 tc_range = None, tc_state = Failed,
                 tc_stackTrace = Some [''java.lang.AssertionError: boom'',
                                       ''    at org.junit.Assert.fail(Assert.java:89)'']\<rparr>"

definition ex_failure_suite :: test_suite where
  "ex_failure_suite = \<lparr>ts_name = ''S'', ts_file = Some ex_uri, ts_range = None,
                       ts_state = SuiteCompleted, ts_tests = Some [ex_failure]\<rparr>"

definition ex_located :: test_case where
  "ex_located = \<lparr>tc_id = ''caseA'', tc_name = ''caseA'', tc_file = Some ex_uri,
                 tc_range = None, tc_state = Failed,
                 tc_stackTrace = Some [''java.lang.AssertionError: boom'',
                                       ''    at org.foo.FooTest.caseA(FooTest.java:12)'']\<rparr>"

text \<open>
  The small tree with a suite that has no range, during a run, and the suite event of a
  failure that belongs to no test of the tree.
\<close>

definition ex_norange :: adapter where
  "ex_norange =
     \<lparr>heap =
        [\<lparr>item_id = ''S'', item_label = ''S'', item_uri = Some ex_uri, item_range = None,
          item_children = [1], item_parent = None\<rparr>,
         \<lparr>item_id = ''caseA'', item_label = ''caseA'', item_uri = Some ex_uri,
          item_range = Some ex_range2, item_children = [], item_parent = Some 0\<rparr>],
      items = [0], currentRun = Some [], itemsToRun = Some [], ended = [], executed = []\<rparr>"

definition ex_stray :: test_case where
  "ex_stray = \<lparr>tc_id = ''initializationError'', tc_name = ''initializationError'', tc_file = None,
               tc_range = None, tc_state = Errored,
               tc_stackTrace = Some [''java.lang.IllegalStateException: no database'']\<rparr>"

definition ex_stray_suite :: test_suite where
  "ex_stray_suite = \<lparr>ts_name = ''S'', ts_file = Some ex_uri, ts_range = None,
                     ts_state = SuiteCompleted, ts_tests = Some [ex_caseA, ex_stray]\<rparr>"

text \<open>
  A result of a suite event that has no item in the tree, is not passed and has a stack
  trace; and the message such a result gives to a suite whose URI is \<open>u\<close> and whose
  range starts at \<open>p\<close>.
\<close>

definition unmatched_failure :: "test_item list \<Rightarrow> addr \<Rightarrow> test_case \<Rightarrow> bool" where
  "unmatched_failure h cs t \<longleftrightarrow>
     find_test h cs (tc_id t) = None \<and> tc_state t \<noteq> Passed \<and> tc_stackTrace t \<noteq> None"

definition suite_message :: "uri option \<Rightarrow> position \<Rightarrow> test_case \<Rightarrow> test_message" where
  "suite_message u p t =
     \<lparr>msg_text = join_lines (case tc_stackTrace t of None \<Rightarrow> [] | Some st \<Rightarrow> st),
      msg_location = Some \<lparr>loc_uri = u, loc_pos = p\<rparr>\<rparr>"

subsection \<open>Collections\<close>

text \<open>The ids of the items of a collection, in order.\<close>

definition coll_ids :: "test_item list \<Rightarrow> addr list \<Rightarrow> string list" where
  "coll_ids h xs = map (\<lambda>x. item_id (h ! x)) xs"



text \<open>The suite \<open>cs\<close> and its children are items of the store, the children with distinct ids.\<close>

definition suite_ok :: "adapter \<Rightarrow> addr \<Rightarrow> bool" where
  "suite_ok s cs \<longleftrightarrow>
     cs < length (heap s) \<and>
     (\<forall>x \<in> set (item_children (heap s ! cs)). x < length (heap s)) \<and>
     distinct (coll_ids (heap s) (item_children (heap s ! cs)))"





text \<open>
  Two suite events of a run for the small tree: one reports \<open>caseA\<close> and its case
  \<open>caseA[1]\<close>, the other reports \<open>caseX[1]\<close>, whose id no child of the suite begins.
\<close>

definition ex_dynamic_suite :: test_suite where
  "ex_dynamic_suite = \<lparr>ts_name = ''S'', ts_file = Some ex_uri, ts_range = Some ex_range,
                       ts_state = SuiteCompleted, ts_tests = Some [ex_caseA, ex_dynamic]\<rparr>"











subsection \<open>The pending set and the calls of a run\<close>

text \<open>
  A run is active, the pending set holds exactly the items whose last call on the run
  handle is \<open>enqueued\<close>, and no call is for the state \<open>loaded\<close>.
\<close>

definition tracking :: "adapter \<Rightarrow> bool" where
  "tracking s \<longleftrightarrow>
     (\<exists>log p. currentRun s = Some log \<and> itemsToRun s = Some p \<and>
        (\<forall>a. a \<in> set p \<longleftrightarrow> last_state log a = Some Enqueued) \<and>
        (\<forall>r \<in> set log. rep_state r \<noteq> Loaded))"

text \<open>The pending items of an adapter (none when there is no set).\<close>

definition pending :: "adapter \<Rightarrow> addr set" where
  "pending s = (case itemsToRun s of None \<Rightarrow> {} | Some p \<Rightarrow> set p)"

text \<open>
  A run of everything in the small tree during which the server reports that the suite
  has started, and nothing more.
\<close>

definition ex_started_suite :: test_suite where
  "ex_started_suite = \<lparr>ts_name = ''S'', ts_file = Some ex_uri, ts_range = Some ex_range,
                       ts_state = SuiteStarted, ts_tests = None\<rparr>"

definition ex_run_all :: "error option \<times> adapter" where
  "ex_run_all =
     run 2 ex_adapter \<lparr>req_include = None, req_debug = False\<rparr> False [''file:///p'']
       [\<lparr>resp_events = [ex_started_suite], resp_rejected = False, resp_cancel = False\<rparr>]"

text \<open>A run of everything in the small tree during which the server reports nothing.\<close>

definition ex_run_quiet :: "error option \<times> adapter" where
  "ex_run_quiet =
     run 2 ex_adapter \<lparr>req_include = None, req_debug = False\<rparr> False [''file:///p''] []"

text \<open>\<open>run\<close> is its two loops, then the close-out.\<close>

definition run_loops ::
  "nat \<Rightarrow> adapter \<Rightarrow> run_request \<Rightarrow> bool \<Rightarrow> string list \<Rightarrow> response list
     \<Rightarrow> error option \<times> (adapter \<times> response list \<times> bool)" where
  "run_loops d s0 request cancellation folders responses =
     (case req_include request of
              Some include \<Rightarrow>
                forEach (run_single d (req_debug request)) (selection (heap s0) include)
                  (s0, responses, cancellation)
            | None \<Rightarrow>
                (case forEach (\<lambda>item s'. set_state d s' item Enqueued None False) (items s0) s0 of
                   (Some e, s1) \<Rightarrow> (Some e, (s1, responses, cancellation))
                 | (None, s1) \<Rightarrow>
                     forEach (run_folder d (req_debug request)) folders
                       (s1, responses, cancellation)))"

subsection \<open>Commands of a run\<close>

text \<open>The command that \<open>run\<close> sends for a selected item that has a URI.\<close>

definition single_command :: "test_item list \<Rightarrow> bool \<Rightarrow> addr \<Rightarrow> command" where
  "single_command h dbg a =
     \<lparr>cmd_name = (if dbg then ''java.debug.single'' else ''java.run.single''),
      cmd_uri = (case item_uri (h ! a) of None \<Rightarrow> [] | Some u \<Rightarrow> uri_text u),
      cmd_selector = id_suffix (item_id (h ! a))\<rparr>"

text \<open>
  The small tree after the run event that nests \<open>caseA[1]\<close> (item 2, without a URI)
  under the copy of \<open>caseA\<close> (item 3), and a request that selects both.
\<close>

definition ex_nested :: adapter where
  "ex_nested = snd (updateTests ex_adapter ex_dynamic_suite True)"

definition ex_request :: run_request where
  "ex_request = \<lparr>req_include = Some [3, 2], req_debug = False\<rparr>"

text \<open>The \<open>Map\<close> that \<open>run\<close> builds from the selected items, starting from \<open>m\<close>.\<close>

definition sel_map :: "test_item list \<Rightarrow> addr list \<Rightarrow> (string \<times> addr) list \<Rightarrow> (string \<times> addr) list" where
  "sel_map h sel m = fold (\<lambda>a m. map_set (fst (selection_entry h a)) (snd (selection_entry h a)) m) sel m"

section \<open>Verification\<close>

subsection \<open>Frame lemmas\<close>

lemma link_free_fields [simp]:
  "link_free item_range" "link_free item_id" "link_free item_uri" "link_free item_label"
  by (simp_all add: link_free_def)

lemma keeps_refl [simp]: "keeps f s s"
  by (simp add: keeps_def)

lemma keeps_trans: "keeps f s s1 \<Longrightarrow> keeps f s1 s2 \<Longrightarrow> keeps f s s2"
  by (auto simp: keeps_def)

lemma keeps_create: "keeps f s0 s \<Longrightarrow> keeps f s0 (snd (createTestItem s i l u))"
  by (auto simp: keeps_def createTestItem_def nth_append)

lemma keeps_items_add: "keeps f s0 s \<Longrightarrow> keeps f s0 (items_add s a)"
  by (simp add: keeps_def items_add_def)

lemma set_parent_length [simp]: "length (set_parent owner a h) = length h"
  by (simp add: set_parent_def)

lemma set_parent_nth:
  "link_free f \<Longrightarrow> f (set_parent owner a h ! b) = f (h ! b)"
  by (cases "a < length h") (auto simp: set_parent_def link_free_def nth_list_update list_update_beyond)

lemma fold_set_parent_length [simp]: "length (fold (set_parent owner) xs h) = length h"
  by (induction xs arbitrary: h) simp_all

lemma fold_set_parent_nth:
  "link_free f \<Longrightarrow> f (fold (set_parent owner) xs h ! b) = f (h ! b)"
  by (induction xs arbitrary: h) (simp_all add: set_parent_nth)

lemma keeps_children_add:
  "link_free f \<Longrightarrow> keeps f s0 s \<Longrightarrow> keeps f s0 (children_add s owner a)"
  by (cases "owner < length (heap s)")
     (auto simp: keeps_def children_add_def Let_def set_parent_nth nth_list_update link_free_def)

lemma keeps_children_replace:
  "link_free f \<Longrightarrow> keeps f s0 s \<Longrightarrow> keeps f s0 (snd (children_replace s owner xs))"
  by (cases "owner < length (heap s)")
     (auto simp: keeps_def children_replace_def Let_def fold_set_parent_nth nth_list_update
        link_free_def split: option.splits)

lemma keeps_set_range_new:
  "keeps f s0 s \<Longrightarrow> length (heap s0) \<le> n \<Longrightarrow> keeps f s0 (set_range s n r)"
  by (auto simp: keeps_def set_range_def nth_list_update)

lemma fst_createTestItem [simp]: "fst (createTestItem s i l u) = length (heap s)"
  by (simp add: createTestItem_def)

lemma keeps_length: "keeps f s0 s \<Longrightarrow> length (heap s0) \<le> length (heap s)"
  by (simp add: keeps_def)

lemma keeps_update_test_run:
  "link_free f \<Longrightarrow> keeps f s0 s \<Longrightarrow>
   keeps f s0 (fst (update_test True cs t (s, children, parentTests)))"
  by (auto simp: update_test_def case_prod_beta keeps_create keeps_children_add
      split: option.splits list.splits)

lemma keeps_fold_update_test_run:
  "link_free f \<Longrightarrow> keeps f s0 (fst acc) \<Longrightarrow>
   keeps f s0 (fst (fold (update_test True cs) ts acc))"
proof (induction ts arbitrary: acc)
  case Nil
  then show ?case by simp
next
  case (Cons t ts)
  obtain s children parentTests where acc: "acc = (s, children, parentTests)"
    by (cases acc) auto
  from Cons.prems have "keeps f s0 (fst (update_test True cs t acc))"
    by (simp add: acc keeps_update_test_run)
  with Cons.IH Cons.prems(1) show ?case by simp
qed

lemma keeps_nest_parent:
  "link_free f \<Longrightarrow> keeps f s0 s \<Longrightarrow> keeps f s0 (snd (nest_parent cs kv s))"
proof -
  assume f: "link_free f" and k: "keeps f s0 s"
  obtain key val where kv: "kv = (key, val)" by (cases kv) auto
  let ?c = "createTestItem s (item_id (heap s ! key)) (item_label (heap s ! key)) (item_uri (heap s ! key))"
  let ?s2 = "set_range (snd ?c) (fst ?c) (item_range (heap s ! key))"
  have "keeps f s0 ?s2"
    using k by (simp add: keeps_set_range_new keeps_create keeps_length)
  then have r: "keeps f s0 (snd (children_replace ?s2 (fst ?c) val))"
    using f by (rule keeps_children_replace[rotated])
  show ?thesis
    using r f
    by (cases "children_replace ?s2 (fst ?c) val")
       (auto simp: nest_parent_def kv case_prod_beta keeps_children_add simp del: fst_createTestItem
          split: option.splits)
qed

lemma forEach_invariant:
  assumes "\<And>x s. x \<in> set xs \<Longrightarrow> I s \<Longrightarrow> I (snd (g x s))" and "I s"
  shows "I (snd (forEach g xs s))"
  using assms
proof (induction xs arbitrary: s)
  case Nil
  then show ?case by simp
next
  case (Cons x xs)
  have step: "I (snd (g x s))"
    using Cons.prems by simp
  show ?case
  proof (cases "g x s")
    case (Pair e s')
    with step have "I s'" by simp
    with Cons.IH[of s'] Cons.prems(1) Pair show ?thesis
      by (cases e) simp_all
  qed
qed

lemma keeps_current_suite: "keeps f s (snd (current_suite s suite))"
  by (auto simp: current_suite_def new_suite_def case_prod_beta keeps_create keeps_items_add
      split: option.splits)

lemma updateTests_run_keeps:
  assumes "link_free f"
  shows "keeps f s (snd (updateTests s suite True))"
proof -
  let ?cs = "fst (current_suite s suite)" and ?s1 = "snd (current_suite s suite)"
  let ?acc = "fold (update_test True ?cs) (case ts_tests suite of None \<Rightarrow> [] | Some ts \<Rightarrow> ts) (?s1, [], [])"
  have "keeps f s (fst ?acc)"
    using assms by (simp add: keeps_fold_update_test_run keeps_current_suite)
  then have "keeps f s (snd (forEach (nest_parent ?cs) (snd (snd ?acc)) (fst ?acc)))"
    using assms by (intro forEach_invariant[where I = "keeps f s"] keeps_nest_parent)
  then show ?thesis
    by (simp add: updateTests_def case_prod_beta)
qed

lemma run_kept_refl [simp]: "run_kept s s"
  by (simp add: run_kept_def)

lemma run_kept_create: "run_kept s0 s \<Longrightarrow> run_kept s0 (snd (createTestItem s i l u))"
  by (simp add: run_kept_def createTestItem_def)

lemma run_kept_items_add: "run_kept s0 s \<Longrightarrow> run_kept s0 (items_add s a)"
  by (simp add: run_kept_def items_add_def)

lemma run_kept_set_range: "run_kept s0 s \<Longrightarrow> run_kept s0 (set_range s a r)"
  by (simp add: run_kept_def set_range_def)

lemma run_kept_children_add: "run_kept s0 s \<Longrightarrow> run_kept s0 (children_add s owner a)"
  by (simp add: run_kept_def children_add_def Let_def)

lemma run_kept_children_replace:
  "run_kept s0 s \<Longrightarrow> run_kept s0 (snd (children_replace s owner xs))"
  by (simp add: run_kept_def children_replace_def Let_def split: option.splits)

lemma run_kept_update_test:
  "run_kept s0 s \<Longrightarrow> run_kept s0 (fst (update_test te cs t (s, children, parentTests)))"
  by (auto simp: update_test_def case_prod_beta run_kept_create run_kept_children_add
      run_kept_set_range split: option.splits list.splits)

lemma run_kept_fold_update_test:
  "run_kept s0 (fst acc) \<Longrightarrow> run_kept s0 (fst (fold (update_test te cs) ts acc))"
proof (induction ts arbitrary: acc)
  case Nil
  then show ?case by simp
next
  case (Cons t ts)
  obtain s children parentTests where acc: "acc = (s, children, parentTests)"
    by (cases acc) auto
  from Cons.prems have "run_kept s0 (fst (update_test te cs t acc))"
    by (simp add: acc run_kept_update_test)
  with Cons.IH show ?case by simp
qed

lemma run_kept_nest_parent: "run_kept s0 s \<Longrightarrow> run_kept s0 (snd (nest_parent cs kv s))"
proof -
  assume k: "run_kept s0 s"
  obtain key val where kv: "kv = (key, val)" by (cases kv) auto
  let ?c = "createTestItem s (item_id (heap s ! key)) (item_label (heap s ! key)) (item_uri (heap s ! key))"
  let ?s2 = "set_range (snd ?c) (fst ?c) (item_range (heap s ! key))"
  have "run_kept s0 ?s2"
    using k by (simp add: run_kept_set_range run_kept_create)
  then have r: "run_kept s0 (snd (children_replace ?s2 (fst ?c) val))"
    by (rule run_kept_children_replace)
  show ?thesis
    using r
    by (cases "children_replace ?s2 (fst ?c) val")
       (auto simp: nest_parent_def kv case_prod_beta run_kept_children_add simp del: fst_createTestItem
          split: option.splits)
qed

lemma run_kept_current_suite: "run_kept s (snd (current_suite s suite))"
  by (auto simp: current_suite_def new_suite_def case_prod_beta run_kept_create run_kept_items_add
      split: option.splits)

lemma updateTests_run_kept: "run_kept s (snd (updateTests s suite te))"
proof (cases te)
  case True
  let ?cs = "fst (current_suite s suite)" and ?s1 = "snd (current_suite s suite)"
  let ?acc = "fold (update_test True ?cs) (case ts_tests suite of None \<Rightarrow> [] | Some ts \<Rightarrow> ts) (?s1, [], [])"
  have "run_kept s (fst ?acc)"
    by (simp add: run_kept_fold_update_test run_kept_current_suite)
  then have "run_kept s (snd (forEach (nest_parent ?cs) (snd (snd ?acc)) (fst ?acc)))"
    by (intro forEach_invariant[where I = "run_kept s"] run_kept_nest_parent)
  then show ?thesis
    by (simp add: updateTests_def case_prod_beta True)
next
  case False
  let ?cs = "fst (current_suite s suite)" and ?s1 = "snd (current_suite s suite)"
  let ?s1' = "if ts_range suite \<noteq> None then set_range ?s1 ?cs (ts_range suite) else ?s1"
  let ?acc = "fold (update_test False ?cs) (case ts_tests suite of None \<Rightarrow> [] | Some ts \<Rightarrow> ts) (?s1', [], [])"
  have "run_kept s ?s1'"
    by (simp add: run_kept_set_range run_kept_current_suite)
  then have "run_kept s (fst ?acc)"
    by (rule run_kept_fold_update_test[of _ "(_, _)", simplified])
  then have "run_kept s (snd (children_replace (fst ?acc) ?cs (fst (snd ?acc))))"
    by (rule run_kept_children_replace)
  then show ?thesis
    by (simp add: updateTests_def case_prod_beta False)
qed

lemma set_state_no_run:
  "currentRun s = None \<Longrightarrow> set_state d s a st m npd = (if d = 0 then Some RangeError else None, s)"
  by (cases d) simp_all

lemma forEach_no_run:
  "currentRun s = None \<Longrightarrow> forEach (progress_test d cs) ts (s, msgs) = (None, (s, msgs))"
  by (induction ts) (simp_all add: progress_test_def)

lemma testProgress_no_run:
  assumes "currentRun s = None"
  shows "run_kept s (snd (testProgress d s suite))"
proof -
  have u: "run_kept s (snd (updateTests s suite te))" for te
    by (rule updateTests_run_kept)
  have c: "currentRun (snd (updateTests s suite True)) = None"
    using u[of True] assms by (simp add: run_kept_def)
  have rest: "run_kept s (snd (case ts_tests suite of
             None \<Rightarrow> (None, s)
           | Some tests \<Rightarrow>
               (case updateTests s suite True of
                  (Some e, s1) \<Rightarrow> (Some e, s1)
                | (None, s1) \<Rightarrow>
                    (case coll_get (heap s) (items s) (ts_name suite) of
                       None \<Rightarrow> (None, s1)
                     | Some cs \<Rightarrow>
                         (case forEach (progress_test d cs) tests (s1, []) of
                            (Some e, (s2, suiteMessages)) \<Rightarrow> (Some e, s2)
                          | (None, (s2, suiteMessages)) \<Rightarrow>
                              if suiteMessages \<noteq> [] then
                                (case set_state d s2 cs Errored (Some suiteMessages) True of
                                   (Some e, s3) \<Rightarrow> (Some e, s3)
                                 | (None, s3) \<Rightarrow>
                                     forEach (\<lambda>item s'. set_state d s' item Skipped None False)
                                       (item_children (heap s3 ! cs)) s3)
                              else (None, s2))))))"
    using u[of True] c
    by (cases "updateTests s suite True") (auto simp: forEach_no_run split: option.splits)
  show ?thesis
  proof (cases "ts_state suite")
    case SuiteLoaded
    then show ?thesis using u by (simp add: testProgress_def)
  next
    case SuiteStarted
    then show ?thesis using assms
      by (simp add: testProgress_def set_state_no_run split: option.splits)
  next
    case SuiteCompleted
    then show ?thesis using rest by (simp add: testProgress_def)
  next
    case SuiteErrored
    then show ?thesis using rest by (simp add: testProgress_def)
  qed
qed

subsection \<open>Labels, ranges and calls outside a run\<close>

lemma startsWith_iff: "startsWith s p \<longleftrightarrow> (\<exists>r. s = p @ r)"
  by (induction s p rule: startsWith.induct) auto

lemma map_of_map_set [simp]: "map_of (map_set k v ps) k = Some v"
  by (induction ps) auto

lemma map_of_map_set_other [simp]: "k' \<noteq> k \<Longrightarrow> map_of (map_set k v ps) k' = map_of ps k'"
  by (induction ps) auto

lemma trim_decomposition:
  "\<exists>l r. s = l @ trim s @ r \<and> list_all is_space l \<and> list_all is_space r"
proof -
  let ?m = "dropWhile is_space s"
  have 1: "s = takeWhile is_space s @ ?m" by simp
  have 2: "?m = trim s @ rev (takeWhile is_space (rev ?m))"
  proof -
    have "rev (takeWhile is_space (rev ?m) @ dropWhile is_space (rev ?m)) = ?m"
      by (simp only: takeWhile_dropWhile_id rev_rev_ident)
    then have "rev (dropWhile is_space (rev ?m)) @ rev (takeWhile is_space (rev ?m)) = ?m"
      by (simp only: rev_append)
    then show ?thesis by (simp only: trim_def)
  qed
  have 3: "list_all is_space (takeWhile is_space s)"
    by (simp add: list_all_iff) (meson set_takeWhileD)
  have 4: "list_all is_space (rev (takeWhile is_space (rev ?m)))"
    by (simp add: list_all_iff) (meson set_takeWhileD)
  from 1 2 have "s = takeWhile is_space s @ trim s @ rev (takeWhile is_space (rev ?m))"
    by simp
  with 3 4 show ?thesis by blast
qed

lemma trim_ends:
  "trim s = [] \<or> \<not> is_space (hd (trim s)) \<and> \<not> is_space (last (trim s))"
proof (cases "trim s = []")
  case True
  then show ?thesis by simp
next
  case False
  let ?m = "dropWhile is_space s"
  let ?t = "dropWhile is_space (rev ?m)"
  from False have ne: "?t \<noteq> []" by (simp add: trim_def)
  then have h: "\<not> is_space (hd ?t)" by (rule hd_dropWhile)
  have l: "last (trim s) = hd ?t" using ne by (simp add: trim_def last_rev)
  have mne: "?m \<noteq> []"
  proof
    assume "?m = []"
    then have "?t = []" by (simp only: rev.simps dropWhile.simps)
    with ne show False by simp
  qed
  have "\<not> is_space (hd ?m)" using mne by (rule hd_dropWhile)
  moreover have "hd (trim s) = hd ?m"
  proof -
    have "trim s = rev ?t" by (simp add: trim_def)
    then have "hd (trim s) = last ?t" using ne by (simp add: hd_rev)
    also have "last ?t = last (rev ?m)"
      using ne by (metis append_Nil2 last_appendR takeWhile_dropWhile_id)
    also have "\<dots> = hd ?m" using mne by (simp add: last_rev)
    finally show ?thesis .
  qed
  ultimately show ?thesis using h l by simp
qed

text \<open>
  Claim C10. When a test reported during a run has no item among the suite's children and
  exactly one child \<open>p\<close> whose id is a prefix of its id, the item created for it (the
  next cell of the store, collected under \<open>p\<close> in \<open>parentTests\<close>) carries the test's
  id, and its label is: the reported name without the label of \<open>p\<close> in front and
  without the white space around what is left, when the name starts with that label;
  the reported name itself otherwise.
\<close>

theorem C10_dynamic_label:
  assumes "coll_get (heap s) (item_children (heap s ! cs)) (tc_id t) = None"
      and "filter (\<lambda>x. startsWith (tc_id t) (item_id (heap s ! x))) (item_children (heap s ! cs)) = [p]"
  shows "case update_test True cs t (s, children, parentTests) of
           (s', children', parentTests') \<Rightarrow>
             (\<exists>arr. map_of parentTests' p = Some (arr @ [length (heap s)])) \<and>
             item_id (heap s' ! length (heap s)) = tc_id t \<and>
             (\<forall>rest. tc_name t = item_label (heap s ! p) @ rest \<longrightarrow>
                item_label (heap s' ! length (heap s)) = trim rest \<and>
                (\<exists>l r. rest = l @ trim rest @ r \<and> list_all is_space l \<and> list_all is_space r) \<and>
                (trim rest = [] \<or> \<not> is_space (hd (trim rest)) \<and> \<not> is_space (last (trim rest)))) \<and>
             ((\<nexists>rest. tc_name t = item_label (heap s ! p) @ rest) \<longrightarrow>
                item_label (heap s' ! length (heap s)) = tc_name t)"
  using assms trim_decomposition trim_ends
  by (auto simp: update_test_def createTestItem_def dynamic_label_def startsWith_iff
      split: option.splits)

theorem C10_dynamic_label_witness:
  "coll_get (heap ex_adapter) (item_children (heap ex_adapter ! 0)) (tc_id ex_dynamic) = None \<and>
   filter (\<lambda>x. startsWith (tc_id ex_dynamic) (item_id (heap ex_adapter ! x)))
     (item_children (heap ex_adapter ! 0)) = [1] \<and>
   tc_name ex_dynamic = ''caseA [1]'' \<and> item_label (heap ex_adapter ! 1) = ''caseA'' \<and>
   item_label (heap (fst (update_test True 0 ex_dynamic (ex_adapter, [], []))) ! 2) = ''[1]''"
proof -
  have h1: "coll_get (heap ex_adapter) (item_children (heap ex_adapter ! 0)) (tc_id ex_dynamic) = None"
    by (simp add: ex_adapter_def ex_dynamic_def coll_get_def)
  have h2: "filter (\<lambda>x. startsWith (tc_id ex_dynamic) (item_id (heap ex_adapter ! x)))
     (item_children (heap ex_adapter ! 0)) = [1]"
    by (simp add: ex_adapter_def ex_dynamic_def)
  have n: "tc_name ex_dynamic = item_label (heap ex_adapter ! 1) @ '' [1]''"
    and n': "tc_name ex_dynamic = ''caseA [1]''" "item_label (heap ex_adapter ! 1) = ''caseA''"
    and l: "length (heap ex_adapter) = 2"
    by (simp_all add: ex_adapter_def ex_dynamic_def)
  have t: "trim '' [1]'' = ''[1]''"
    by (simp add: trim_def is_space_def)
  from C10_dynamic_label[OF h1 h2, of "[]" "[]"] n
  have "item_label (heap (fst (update_test True 0 ex_dynamic (ex_adapter, [], []))) ! length (heap ex_adapter))
          = trim '' [1]''"
    by (auto simp: case_prod_beta)
  with h1 h2 n' t l show ?thesis by simp
qed

text \<open>
  Claim C9, as amended. While no run is active, \<open>set\<close> does nothing, whatever the item,
  the state, the message and \<open>noPassDown\<close>: it returns the adapter as it was (no call on
  a run handle, the pending set untouched, no child visited). So a suite event that
  arrives outside a run reports nothing: the run session, the pending set, the runs ended
  and the commands sent are after \<open>testProgress\<close> what they were before, and a
  \<open>started\<close> event changes nothing at all. (The other events still update the tree
  through \<open>updateTests\<close>, which no run guards.)
\<close>

theorem C9_set_without_run:
  assumes "currentRun s = None"
  shows "set_state (Suc d) s a st m noPassDown = (None, s) \<and>
         run_kept s (snd (testProgress d' s suite)) \<and>
         (ts_state suite = SuiteStarted \<longrightarrow> testProgress (Suc d') s suite = (None, s))"
proof -
  have "testProgress (Suc d') s suite = (None, s)" if "ts_state suite = SuiteStarted"
    using assms that by (simp add: testProgress_def split: option.splits)
  with assms show ?thesis
    by (simp add: testProgress_no_run)
qed

theorem C9_counterexample:
  "currentRun ex_adapter = None \<and>
   ts_state ex_dynamic_suite = SuiteCompleted \<and>
   testProgress 1 ex_adapter ex_dynamic_suite = (None, ex_nested) \<and>
   length (heap ex_adapter) = 2 \<and> length (heap ex_nested) = 4 \<and>
   coll_get (heap ex_adapter) (item_children (heap ex_adapter ! 0)) ''caseA'' = Some 1 \<and>
   coll_get (heap ex_nested) (item_children (heap ex_nested ! 0)) ''caseA'' = Some 3 \<and>
   item_range (heap ex_adapter ! 0) = Some ex_range \<and>
   item_range (heap (snd (testProgress 1 ex_adapter (ex_suite\<lparr>ts_state := SuiteLoaded\<rparr>))) ! 0) =
     Some ex_range2"
  by code_simp

theorem C9_set_without_run_witness:
  "currentRun ex_adapter = None \<and>
   set_state (Suc 0) ex_adapter 0 Enqueued None False = (None, ex_adapter) \<and>
   run_kept ex_adapter (snd (testProgress 1 ex_adapter ex_suite)) \<and>
   ts_state ex_started_suite = SuiteStarted \<and>
   testProgress 1 ex_adapter ex_started_suite = (None, ex_adapter)"
proof -
  have h: "currentRun ex_adapter = None"
    by (simp add: ex_adapter_def)
  have t: "ts_state ex_started_suite = SuiteStarted"
    by (simp add: ex_started_suite_def)
  note a = C9_set_without_run[OF h, where d = 0 and d' = 1 and a = 0 and st = Enqueued
      and m = None and noPassDown = False and suite = ex_suite]
  note b = C9_set_without_run[OF h, where d' = 0 and suite = ex_started_suite]
  from a b h t show ?thesis
    by simp
qed

text \<open>
  Claim C8. \<open>updateTests\<close> in the mode of a run (\<open>testExecution\<close> true) leaves the range
  of every item that exists at the call as it is, the suite's and the tests', whatever
  ranges the snapshot carries, and whether or not the call ends with an exception.
\<close>

theorem C8_ranges_kept_during_run:
  "\<forall>a < length (heap s).
     item_range (heap (snd (updateTests s suite True)) ! a) = item_range (heap s ! a)"
  using updateTests_run_keeps[of item_range s suite] by (simp add: keeps_def)

theorem C8_ranges_kept_during_run_witness:
  "(0 < length (heap ex_adapter) \<and> 1 < length (heap ex_adapter)) \<and>
   (ts_range ex_suite = Some ex_range2 \<and>
    item_range (heap ex_adapter ! 0) = Some ex_range \<and>
    item_range (heap (snd (updateTests ex_adapter ex_suite True)) ! 0) = Some ex_range) \<and>
   (tc_range ex_caseA = Some ex_range \<and>
    item_range (heap ex_adapter ! 1) = Some ex_range2 \<and>
    item_range (heap (snd (updateTests ex_adapter ex_suite True)) ! 1) = Some ex_range2)"
proof -
  have l: "0 < length (heap ex_adapter)" "1 < length (heap ex_adapter)"
    by (simp_all add: ex_adapter_def)
  have r: "item_range (heap ex_adapter ! 0) = Some ex_range"
    "item_range (heap ex_adapter ! 1) = Some ex_range2"
    by (simp_all add: ex_adapter_def)
  have s: "ts_range ex_suite = Some ex_range2" "tc_range ex_caseA = Some ex_range"
    by (simp_all add: ex_suite_def ex_caseA_def)
  from C8_ranges_kept_during_run[of ex_adapter ex_suite] l r s show ?thesis
    by simp
qed

subsection \<open>Propagation of a state to the subtree\<close>

lemma apply_reports_heap [simp]: "heap (apply_reports s bs st m) = heap s"
  by (simp add: apply_reports_def)

lemma apply_reports_currentRun [simp]:
  "currentRun (apply_reports s bs st m) = None \<longleftrightarrow> currentRun s = None"
  by (simp add: apply_reports_def)

lemma apply_reports_Nil [simp]: "apply_reports s [] st m = s"
  by (cases "currentRun s") (simp_all add: apply_reports_def option.map_id)

lemma apply_reports_append:
  "apply_reports (apply_reports s xs st m) ys st m = apply_reports s (xs @ ys) st m"
  by (simp add: apply_reports_def option.map_comp comp_def)

lemma report_state_eq:
  "currentRun s = Some log \<Longrightarrow> report_state s log a st m = apply_reports s [a] st m"
  by (cases st) (simp_all add: report_state_def apply_reports_def messages_of_def)

lemma set_state_noPassDown:
  "currentRun s \<noteq> None \<Longrightarrow> set_state (Suc d) s a st m True = (None, apply_reports s [a] st m)"
  by (auto simp: report_state_eq)

lemma forEach_set_state:
  assumes "\<And>c s'. c \<in> set cs \<Longrightarrow> heap s' = h \<Longrightarrow> currentRun s' \<noteq> None \<Longrightarrow>
             set_state d s' c st m False = (None, apply_reports s' (subtree h d c) st m)"
  shows "heap s = h \<Longrightarrow> currentRun s \<noteq> None \<Longrightarrow>
         forEach (\<lambda>child s'. set_state d s' child st m False) cs s =
           (None, apply_reports s (concat (map (subtree h d) cs)) st m)"
  using assms
proof (induction cs arbitrary: s)
  case Nil
  then show ?case by simp
next
  case (Cons c cs)
  have 1: "set_state d s c st m False = (None, apply_reports s (subtree h d c) st m)"
    using Cons.prems by simp
  have 2: "forEach (\<lambda>child s'. set_state d s' child st m False) cs
              (apply_reports s (subtree h d c) st m) =
           (None, apply_reports (apply_reports s (subtree h d c) st m)
                    (concat (map (subtree h d) cs)) st m)"
    using Cons.prems by (intro Cons.IH) simp_all
  show ?case
    by (simp add: 1 2 apply_reports_append)
qed

lemma set_state_subtree:
  "depth_le (heap s) d a \<Longrightarrow> currentRun s \<noteq> None \<Longrightarrow>
   set_state d s a st m False = (None, apply_reports s (subtree (heap s) d a) st m)"
proof (induction d arbitrary: s a)
  case 0
  then show ?case by simp
next
  case (Suc d)
  from Suc.prems(2) obtain log where log: "currentRun s = Some log" by auto
  let ?s1 = "apply_reports s [a] st m"
  have "forEach (\<lambda>child s'. set_state d s' child st m False) (item_children (heap s ! a)) ?s1 =
          (None, apply_reports ?s1 (concat (map (subtree (heap s) d) (item_children (heap s ! a)))) st m)"
  proof (rule forEach_set_state)
    fix c and s' :: adapter
    assume "c \<in> set (item_children (heap s ! a))" "heap s' = heap s" "currentRun s' \<noteq> None"
    with Suc.prems(1) Suc.IH[of s' c]
    show "set_state d s' c st m False = (None, apply_reports s' (subtree (heap s) d c) st m)"
      by simp
  qed (simp_all add: log)
  then show ?case
    by (simp add: log report_state_eq apply_reports_append)
qed

lemma depth_le_pos: "depth_le h d a \<Longrightarrow> 0 < d"
  by (cases d) simp_all

lemma subtree_self: "0 < d \<Longrightarrow> a \<in> set (subtree h d a)"
  by (cases d) simp_all

lemma subtree_descendants: "b \<in> set (subtree h d a) \<Longrightarrow> b \<in> descendants h a"
proof (induction d arbitrary: a b)
  case 0
  then show ?case by simp
next
  case (Suc d)
  show ?case
  proof (cases "b = a")
    case True
    then show ?thesis by (simp add: descendants.self)
  next
    case False
    with Suc.prems obtain c where c: "c \<in> set (item_children (h ! a))" "b \<in> set (subtree h d c)"
      by auto
    then have "b \<in> descendants h c" by (simp add: Suc.IH)
    then show ?thesis
    proof induction
      case self
      then show ?case using c(1) by (blast intro: descendants.intros)
    next
      case (child b' c')
      then show ?case by (blast intro: descendants.child)
    qed
  qed
qed

lemma subtree_child:
  "b \<in> set (subtree h d a) \<Longrightarrow> depth_le h d a \<Longrightarrow> c \<in> set (item_children (h ! b)) \<Longrightarrow>
   c \<in> set (subtree h d a)"
proof (induction d arbitrary: a)
  case 0
  then show ?case by simp
next
  case (Suc d)
  show ?case
  proof (cases "b = a")
    case True
    with Suc.prems have "depth_le h d c" by simp
    then have "c \<in> set (subtree h d c)" by (simp add: subtree_self depth_le_pos)
    with True Suc.prems(3) show ?thesis by auto
  next
    case False
    with Suc.prems obtain x where x: "x \<in> set (item_children (h ! a))" "b \<in> set (subtree h d x)"
      by auto
    with Suc.prems have "depth_le h d x" by simp
    with x Suc.IH[of x] Suc.prems(3) have "c \<in> set (subtree h d x)" by simp
    with x(1) show ?thesis by auto
  qed
qed

lemma descendants_subtree:
  "b \<in> descendants h a \<Longrightarrow> depth_le h d a \<Longrightarrow> b \<in> set (subtree h d a)"
  by (induction rule: descendants.induct) (auto simp: subtree_self depth_le_pos subtree_child)

lemma set_subtree: "depth_le h d a \<Longrightarrow> set (subtree h d a) = descendants h a"
  by (auto simp: subtree_descendants descendants_subtree)

lemma fold_set_add: "set (fold set_add bs p) = set bs \<union> set p"
  by (induction bs arbitrary: p) (auto simp: set_add_def)

lemma fold_set_delete: "set (fold set_delete bs p) = set p - set bs"
  by (induction bs arbitrary: p) (auto simp: set_delete_def)

text \<open>
  Claim C4. During an active run, \<open>set(item, state, message)\<close> without \<open>noPassDown\<close>
  returns (given as many nested calls as the subtree has levels) and makes on the run
  handle exactly the calls for the descendants of the item, the item included, each with
  that state and the same messages; the pending set gains all of them when the state is
  \<open>enqueued\<close> and loses all of them otherwise.
\<close>

theorem C4_set_propagates:
  assumes "currentRun s = Some log" and "depth_le (heap s) d a" and "st \<noteq> Loaded"
  shows "fst (set_state d s a st m False) = None \<and>
         (\<exists>new. currentRun (snd (set_state d s a st m False)) = Some (log @ new) \<and>
            rep_item ` set new = descendants (heap s) a \<and>
            (\<forall>r \<in> set new. rep_state r = st \<and> rep_messages r = messages_of st m)) \<and>
         (\<forall>p. itemsToRun s = Some p \<longrightarrow>
            (\<exists>p'. itemsToRun (snd (set_state d s a st m False)) = Some p' \<and>
               set p' = (if st = Enqueued then set p \<union> descendants (heap s) a
                         else set p - descendants (heap s) a)))"
proof -
  let ?bs = "subtree (heap s) d a"
  have eq: "set_state d s a st m False = (None, apply_reports s ?bs st m)"
    using assms by (simp add: set_state_subtree)
  have bs: "set ?bs = descendants (heap s) a"
    using assms(2) by (rule set_subtree)
  let ?new = "map (\<lambda>b. \<lparr>rep_item = b, rep_state = st, rep_messages = messages_of st m\<rparr>) ?bs"
  have "currentRun (apply_reports s ?bs st m) = Some (log @ ?new)"
    using assms(1,3) by (simp add: apply_reports_def)
  moreover have "rep_item ` set ?new = descendants (heap s) a"
    using bs by (simp add: image_image)
  moreover have "\<forall>r \<in> set ?new. rep_state r = st \<and> rep_messages r = messages_of st m"
    by auto
  ultimately have reports: "\<exists>new. currentRun (apply_reports s ?bs st m) = Some (log @ new) \<and>
            rep_item ` set new = descendants (heap s) a \<and>
            (\<forall>r \<in> set new. rep_state r = st \<and> rep_messages r = messages_of st m)"
    by blast
  have pending: "\<forall>p. itemsToRun s = Some p \<longrightarrow>
            (\<exists>p'. itemsToRun (apply_reports s ?bs st m) = Some p' \<and>
               set p' = (if st = Enqueued then set p \<union> descendants (heap s) a
                         else set p - descendants (heap s) a))"
    using assms(3) bs by (auto simp: apply_reports_def fold_set_add fold_set_delete)
  show ?thesis
    using reports pending by (simp add: eq)
qed

theorem C4_set_propagates_witness:
  "currentRun ex_running = Some [] \<and> depth_le (heap ex_running) (Suc (Suc 0)) 0 \<and> Failed \<noteq> Loaded \<and>
   1 \<in> descendants (heap ex_running) 0 \<and>
   fst (set_state (Suc (Suc 0)) ex_running 0 Failed None False) = None \<and>
   (\<exists>new. currentRun (snd (set_state (Suc (Suc 0)) ex_running 0 Failed None False)) = Some ([] @ new) \<and>
      rep_item ` set new = descendants (heap ex_running) 0 \<and>
      (\<forall>r \<in> set new. rep_state r = Failed \<and> rep_messages r = messages_of Failed None))"
proof -
  have h: "currentRun ex_running = Some []" "depth_le (heap ex_running) (Suc (Suc 0)) 0"
    by (simp_all add: ex_running_def ex_adapter_def)
  have c: "1 \<in> descendants (heap ex_running) 0"
    by (rule descendants.child[OF descendants.self]) (simp add: ex_running_def ex_adapter_def)
  from C4_set_propagates[OF h, of Failed None] h c show ?thesis
    by simp
qed

subsection \<open>The location of a failure\<close>

lemma char_classes [simp]:
  "\<not> is_digit (CHR '':'')" "\<not> is_space (CHR ''a'')"
  by (simp_all add: is_digit_def is_space_def)

lemma frame_pattern_match:
  assumes "frame_pattern frame f ds"
  shows "frame_match frame = Some (f, ds)"
proof -
  from assms obtain ws mid where
    fr: "frame = ws @ ''at'' @ mid @ ''('' @ f @ '':'' @ ds @ '')''"
    and ws: "list_all is_space ws" and mid: "CHR ''('' \<notin> set mid"
    and f: "list_all (\<lambda>c. \<not> is_space c) f" and ds: "list_all is_digit ds"
    by (auto simp: frame_pattern_def)
  let ?r = "f @ '':'' @ ds @ '')''"
  have 1: "dropWhile is_space frame = ''at'' @ mid @ ''('' @ ?r"
    using ws dropWhile_append2[of ws is_space "''at'' @ mid @ ''('' @ ?r"] by (simp add: fr list_all_iff)
  have 2: "dropWhile (\<lambda>c. c \<noteq> CHR ''('') (mid @ ''('' @ ?r) = ''('' @ ?r"
    using mid by (subst dropWhile_append2) auto
  have 3: "butlast ?r = f @ '':'' @ ds" "last ?r = CHR '')''" "?r \<noteq> []"
    by (simp_all add: butlast_append)
  have 4: "takeWhile is_digit (rev (f @ '':'' @ ds)) = rev ds"
    using ds takeWhile_append2[of "rev ds" is_digit "CHR '':'' # rev f"] by (simp add: list_all_iff)
  have 5: "dropWhile is_digit (rev (f @ '':'' @ ds)) = '':'' @ rev f"
    using ds dropWhile_append2[of "rev ds" is_digit "CHR '':'' # rev f"] by (simp add: list_all_iff)
  show ?thesis
    unfolding frame_match_def Let_def 1
    using f by (simp add: 2[simplified] 3[simplified] 4[simplified] 5[simplified] butlast_append)
qed

lemma frame_match_pattern:
  assumes "frame_match frame = Some (f, ds)"
  shows "frame_pattern frame f ds"
proof -
  let ?s1 = "dropWhile is_space frame"
  from assms have sw: "startsWith ?s1 ''at''"
    by (auto simp: frame_match_def Let_def split: if_splits)
  then obtain r0 where s1: "?s1 = ''at'' @ r0"
    by (auto simp: startsWith_iff)
  then have d2: "drop 2 ?s1 = r0" by simp
  from assms sw d2 obtain c r where
    dw: "dropWhile (\<lambda>c. c \<noteq> CHR ''('') r0 = c # r"
    and rne: "r \<noteq> []" and rl: "last r = CHR '')''"
    and rest: "rev (dropWhile is_digit (rev (butlast r))) \<noteq> []"
       "last (rev (dropWhile is_digit (rev (butlast r)))) = CHR '':''"
    and fs: "list_all (\<lambda>c. \<not> is_space c) (butlast (rev (dropWhile is_digit (rev (butlast r)))))"
    and f: "f = butlast (rev (dropWhile is_digit (rev (butlast r))))"
    and ds: "ds = rev (takeWhile is_digit (rev (butlast r)))"
    by (auto simp: frame_match_def Let_def split: if_splits list.splits)
  have c: "c = CHR ''(''"
    using hd_dropWhile[of "\<lambda>c. c \<noteq> CHR ''(''" r0] dw by simp
  have r0: "r0 = takeWhile (\<lambda>c. c \<noteq> CHR ''('') r0 @ ''('' @ r"
    using takeWhile_dropWhile_id[of "\<lambda>c. c \<noteq> CHR ''(''" r0] dw c by simp
  have r: "r = butlast r @ '')''"
    using rne rl append_butlast_last_id[of r] by simp
  let ?x = "butlast r"
  have x: "?x = rev (dropWhile is_digit (rev ?x)) @ ds"
  proof -
    have "rev (takeWhile is_digit (rev ?x) @ dropWhile is_digit (rev ?x)) = ?x"
      by (simp only: takeWhile_dropWhile_id rev_rev_ident)
    then show ?thesis by (simp only: rev_append ds)
  qed
  have rs: "rev (dropWhile is_digit (rev ?x)) = f @ '':''"
    using rest append_butlast_last_id[of "rev (dropWhile is_digit (rev ?x))"] f by simp
  have frame: "frame = takeWhile is_space frame @ ?s1" by simp
  have "frame = takeWhile is_space frame @ ''at'' @ takeWhile (\<lambda>c. c \<noteq> CHR ''('') r0 @ ''('' @ f @ '':'' @ ds @ '')''"
    apply (subst frame)
    apply (subst s1)
    apply (subst r0)
    apply (subst r)
    apply (subst x)
    apply (subst rs)
    apply simp
    done
  moreover have "list_all is_space (takeWhile is_space frame)"
    by (simp add: list_all_iff) (meson set_takeWhileD)
  moreover have "CHR ''('' \<notin> set (takeWhile (\<lambda>c. c \<noteq> CHR ''('') r0)"
    by (auto dest: set_takeWhileD)
  moreover have "list_all is_digit ds"
    by (simp add: ds list_all_iff) (meson set_takeWhileD)
  ultimately show ?thesis
    unfolding frame_pattern_def using fs f by blast
qed

lemma frame_match_iff: "frame_match frame = Some (f, ds) \<longleftrightarrow> frame_pattern frame f ds"
  using frame_match_pattern frame_pattern_match by blast

lemma frame_line_iff:
  "frame_line file frame = Some n \<longleftrightarrow> (\<exists>ds. frame_pattern frame file ds \<and> parseInt ds = Some n)"
proof
  assume "frame_line file frame = Some n"
  then obtain f ds where "frame_match frame = Some (f, ds)" "f = file" "parseInt ds = Some n"
    by (auto simp: frame_line_def split: option.splits if_splits)
  then show "\<exists>ds. frame_pattern frame file ds \<and> parseInt ds = Some n"
    using frame_match_iff by blast
next
  assume "\<exists>ds. frame_pattern frame file ds \<and> parseInt ds = Some n"
  then obtain ds where "frame_match frame = Some (file, ds)" "parseInt ds = Some n"
    using frame_match_iff by blast
  then show "frame_line file frame = Some n"
    by (simp add: frame_line_def)
qed

lemma stack_line_Cons:
  "stack_line file (g # st) =
     (case frame_line file g of
        None \<Rightarrow> stack_line file st
      | Some n \<Rightarrow> if n \<noteq> Finite 0 then Some n else stack_line file st)"
  by (simp add: stack_line_def split: option.splits)

lemma frame_line_pattern:
  "frame_pattern g file ds \<Longrightarrow> frame_line file g = parseInt ds"
  by (simp add: frame_line_def frame_pattern_match)

lemma no_line_Cons:
  "no_line file (g # st) \<longleftrightarrow>
     (frame_line file g = None \<or> frame_line file g = Some (Finite 0)) \<and> no_line file st"
proof -
  have "(\<forall>ds. frame_pattern g file ds \<longrightarrow> parseInt ds = None \<or> parseInt ds = Some (Finite 0)) \<longleftrightarrow>
        (frame_line file g = None \<or> frame_line file g = Some (Finite 0))"
  proof
    assume a: "\<forall>ds. frame_pattern g file ds \<longrightarrow> parseInt ds = None \<or> parseInt ds = Some (Finite 0)"
    show "frame_line file g = None \<or> frame_line file g = Some (Finite 0)"
    proof (cases "frame_line file g")
      case None
      then show ?thesis by simp
    next
      case (Some n)
      then obtain ds where "frame_pattern g file ds" "parseInt ds = Some n"
        using frame_line_iff by blast
      with a Some show ?thesis by fastforce
    qed
  next
    assume "frame_line file g = None \<or> frame_line file g = Some (Finite 0)"
    then show "\<forall>ds. frame_pattern g file ds \<longrightarrow> parseInt ds = None \<or> parseInt ds = Some (Finite 0)"
      using frame_line_pattern by fastforce
  qed
  then show ?thesis by (simp add: no_line_def)
qed

lemma stack_line_skip: "no_line file pre \<Longrightarrow> stack_line file (pre @ st) = stack_line file st"
  by (induction pre) (auto simp: stack_line_Cons no_line_Cons)

lemma stack_line_none: "no_line file st \<Longrightarrow> stack_line file st = None"
  by (induction st) (auto simp: stack_line_Cons no_line_Cons stack_line_def)

lemma stack_line_first:
  assumes "no_line file pre" "frame_pattern frame file ds" "parseInt ds = Some n" "n \<noteq> Finite 0"
  shows "stack_line file (pre @ frame # post) = Some n"
proof -
  have "frame_line file frame = Some n"
    using assms frame_line_iff by blast
  then show ?thesis
    using assms by (simp add: stack_line_skip stack_line_Cons)
qed

lemma bit_length_0 [simp]: "bit_length 0 = 0"
  by (subst bit_length.simps) simp

lemma bit_length_le: "n < 2 ^ k \<Longrightarrow> bit_length n \<le> k"
proof (induction k arbitrary: n)
  case 0
  then show ?case by simp
next
  case (Suc k)
  show ?case
  proof (cases "n = 0")
    case True
    then show ?thesis by simp
  next
    case False
    from Suc.prems have "n div 2 < 2 ^ k" by simp
    then have "bit_length (n div 2) \<le> k" by (rule Suc.IH)
    with False show ?thesis by (subst bit_length.simps) simp
  qed
qed

lemma to_number_exact: "n < 2 ^ 53 \<Longrightarrow> to_number n = Finite n"
proof -
  assume n: "n < 2 ^ 53"
  then have e: "bit_length n - 53 = 0"
    using bit_length_le[of n 53] by simp
  have "(2 :: nat) ^ 53 \<le> 2 ^ 1024"
    by (rule power_increasing) simp_all
  with n have "n < (2 :: nat) ^ 1024"
    by (rule less_le_trans)
  then show ?thesis
    unfolding to_number_def Let_def e by simp
qed

lemma parseInt_exact:
  "ds \<noteq> [] \<Longrightarrow> decimal ds < 2 ^ 53 \<Longrightarrow> parseInt ds = Some (Finite (decimal ds))"
  by (simp add: parseInt_def to_number_exact)

lemma minus_one_exact: "n \<le> 2 ^ 53 \<Longrightarrow> minus_one (Finite n) = Finite (n - 1)"
proof (cases "n = 0")
  case True
  then show ?thesis by (simp add: minus_one_def to_number_exact)
next
  case False
  assume "n \<le> 2 ^ 53"
  with False have "n - 1 < 2 ^ 53" by simp
  then show ?thesis by (simp add: minus_one_def to_number_exact)
qed

text \<open>
  Claim C7, as amended. The message of a result that has a stack trace carries the lines
  joined, and for a result with a tree item whose URI (its own, else its parent's) is
  \<open>u\<close>: the first line of the form \<open>at ...(file:digits)\<close> whose file is the base name
  of the path of \<open>u\<close> and whose digits are a number other than zero gives the location
  \<open>u\<close>, line minus one, column 0; without such a line the location is \<open>u\<close> at the
  start of the item's range, and there is none when the item has no range. A tree item
  without a URI gets no location. The suite's URI and the start of its range are the
  location only of a result that has no tree item. The line is a JavaScript number: it
  is the integer that the digits write, and line minus one the integer before it, as long
  as the digits write less than \<open>2^53\<close>; larger ones are rounded to the numbers a
  double holds.
\<close>

theorem C7_failure_location:
  assumes "tc_stackTrace t = Some st"
  shows "(\<forall>ct u. test_uri h ct = Some u \<longrightarrow>
            (\<exists>m. result_message h cs (Some ct) t = Inr (Some m) \<and> msg_text m = join_lines st \<and>
               (\<forall>pre frame post ds l.
                  st = pre @ frame # post \<and> no_line (basename (uri_path u)) pre \<and>
                  frame_pattern frame (basename (uri_path u)) ds \<and> parseInt ds = Some l \<and>
                  l \<noteq> Finite 0 \<longrightarrow>
                  msg_location m =
                    Some \<lparr>loc_uri = Some u, loc_pos = \<lparr>pos_line = minus_one l, pos_character = 0\<rparr>\<rparr>) \<and>
               (no_line (basename (uri_path u)) st \<longrightarrow>
                  msg_location m =
                    (case item_range (h ! ct) of
                       None \<Rightarrow> None
                     | Some r \<Rightarrow> Some \<lparr>loc_uri = Some u, loc_pos = range_start r\<rparr>)))) \<and>
         (\<forall>ct. test_uri h ct = None \<longrightarrow>
            result_message h cs (Some ct) t =
              Inr (Some \<lparr>msg_text = join_lines st, msg_location = None\<rparr>)) \<and>
         (\<forall>r. item_range (h ! cs) = Some r \<longrightarrow>
            result_message h cs None t =
              Inr (Some \<lparr>msg_text = join_lines st,
                         msg_location = Some \<lparr>loc_uri = item_uri (h ! cs), loc_pos = range_start r\<rparr>\<rparr>)) \<and>
         (\<forall>ds. ds \<noteq> [] \<and> decimal ds < 2 ^ 53 \<longrightarrow>
            parseInt ds = Some (Finite (decimal ds)) \<and>
            minus_one (Finite (decimal ds)) = Finite (decimal ds - 1))"
proof (intro conjI allI impI)
  fix ct u
  assume u: "test_uri h ct = Some u"
  let ?m = "\<lparr>msg_text = join_lines st, msg_location = test_location h ct st\<rparr>"
  have 1: "result_message h cs (Some ct) t = Inr (Some ?m)"
    using assms by (simp add: result_message_def)
  have 2: "msg_location ?m =
      Some \<lparr>loc_uri = Some u, loc_pos = \<lparr>pos_line = minus_one l, pos_character = 0\<rparr>\<rparr>"
    if "st = pre @ frame # post \<and> no_line (basename (uri_path u)) pre \<and>
        frame_pattern frame (basename (uri_path u)) ds \<and> parseInt ds = Some l \<and> l \<noteq> Finite 0"
    for pre frame post ds l
  proof -
    from that stack_line_first[of "basename (uri_path u)" pre frame ds l post]
    have "stack_line (basename (uri_path u)) st = Some l"
      by auto
    then show ?thesis by (simp add: test_location_def u)
  qed
  have 3: "msg_location ?m =
             (case item_range (h ! ct) of
                None \<Rightarrow> None
              | Some r \<Rightarrow> Some \<lparr>loc_uri = Some u, loc_pos = range_start r\<rparr>)"
    if "no_line (basename (uri_path u)) st"
    using that by (simp add: test_location_def u stack_line_none split: option.splits)
  show "\<exists>m. result_message h cs (Some ct) t = Inr (Some m) \<and> msg_text m = join_lines st \<and>
               (\<forall>pre frame post ds l.
                  st = pre @ frame # post \<and> no_line (basename (uri_path u)) pre \<and>
                  frame_pattern frame (basename (uri_path u)) ds \<and> parseInt ds = Some l \<and>
                  l \<noteq> Finite 0 \<longrightarrow>
                  msg_location m =
                    Some \<lparr>loc_uri = Some u, loc_pos = \<lparr>pos_line = minus_one l, pos_character = 0\<rparr>\<rparr>) \<and>
               (no_line (basename (uri_path u)) st \<longrightarrow>
                  msg_location m =
                    (case item_range (h ! ct) of
                       None \<Rightarrow> None
                     | Some r \<Rightarrow> Some \<lparr>loc_uri = Some u, loc_pos = range_start r\<rparr>))"
  proof (intro exI[of _ ?m] conjI allI impI)
    show "result_message h cs (Some ct) t = Inr (Some ?m)" by (rule 1)
    show "msg_text ?m = join_lines st" by simp
  next
    fix pre frame post ds l
    assume "st = pre @ frame # post \<and> no_line (basename (uri_path u)) pre \<and>
        frame_pattern frame (basename (uri_path u)) ds \<and> parseInt ds = Some l \<and> l \<noteq> Finite 0"
    then show "msg_location ?m =
        Some \<lparr>loc_uri = Some u, loc_pos = \<lparr>pos_line = minus_one l, pos_character = 0\<rparr>\<rparr>"
      by (rule 2)
  next
    assume "no_line (basename (uri_path u)) st"
    then show "msg_location ?m =
             (case item_range (h ! ct) of
                None \<Rightarrow> None
              | Some r \<Rightarrow> Some \<lparr>loc_uri = Some u, loc_pos = range_start r\<rparr>)"
      by (rule 3)
  qed
next
  fix ct
  assume "test_uri h ct = None"
  then show "result_message h cs (Some ct) t =
              Inr (Some \<lparr>msg_text = join_lines st, msg_location = None\<rparr>)"
    using assms by (simp add: result_message_def test_location_def)
next
  fix r
  assume "item_range (h ! cs) = Some r"
  then show "result_message h cs None t =
              Inr (Some \<lparr>msg_text = join_lines st,
                         msg_location = Some \<lparr>loc_uri = item_uri (h ! cs), loc_pos = range_start r\<rparr>\<rparr>)"
    using assms by (simp add: result_message_def)
next
  fix ds
  assume "ds \<noteq> [] \<and> decimal ds < 2 ^ 53"
  then show "parseInt ds = Some (Finite (decimal ds))"
    by (simp add: parseInt_exact)
next
  fix ds
  assume "ds \<noteq> [] \<and> decimal ds < 2 ^ 53"
  then show "minus_one (Finite (decimal ds)) = Finite (decimal ds - 1)"
    by (simp add: minus_one_exact)
qed

lemma ex_frames:
  "frame_match ''java.lang.AssertionError: boom'' = None"
  "frame_match ''    at org.junit.Assert.fail(Assert.java:89)'' = Some (''Assert.java'', ''89'')"
  "frame_match ''    at org.foo.FooTest.caseA(FooTest.java:12)'' = Some (''FooTest.java'', ''12'')"
  by (simp_all add: frame_match_def is_space_def is_digit_def)

lemma ex_basename: "basename (uri_path ex_uri) = ''FooTest.java''"
  by (simp add: basename_def ex_uri_def)

lemma ex_parseInt: "''12'' \<noteq> [] \<and> decimal ''12'' = 12 \<and> parseInt ''12'' = Some (Finite 12)"
  by (simp add: parseInt_def decimal_def to_number_def bit_length.simps Let_def)

text \<open>
  Beyond \<open>2^53\<close> the line is a rounded one: the digits \<open>9007199254740993\<close> are the
  number \<open>9007199254740992\<close>, and the line of the location is \<open>9007199254740991\<close>.
\<close>

lemma ex_rounded:
  "parseInt ''9007199254740993'' = Some (Finite 9007199254740992) \<and>
   minus_one (Finite 9007199254740992) = Finite 9007199254740991 \<and>
   parseInt ''9007199254740995'' = Some (Finite 9007199254740996) \<and>
   minus_one (Finite 9007199254740996) = Finite 9007199254740996"
  by (simp add: parseInt_def decimal_def minus_one_def to_number_def bit_length.simps Let_def)

theorem C7_counterexample:
  "find_test (heap ex_unranged) 0 (tc_id ex_failure) = Some 1 \<and>
   item_range (heap ex_unranged ! 1) = None \<and>
   item_range (heap ex_unranged ! 0) = Some ex_range \<and>
   stack_line (basename (uri_path ex_uri))
     [''java.lang.AssertionError: boom'', ''    at org.junit.Assert.fail(Assert.java:89)''] = None \<and>
   result_message (heap ex_unranged) 0 (Some 1) ex_failure =
     Inr (Some \<lparr>msg_text = ''java.lang.AssertionError: boom'' @ CHR 0x0A #
                              ''    at org.junit.Assert.fail(Assert.java:89)'',
                msg_location = None\<rparr>) \<and>
   currentRun (snd (testProgress 1 ex_unranged ex_failure_suite)) =
     Some [\<lparr>rep_item = 1, rep_state = Failed,
            rep_messages = [\<lparr>msg_text = ''java.lang.AssertionError: boom'' @ CHR 0x0A #
                              ''    at org.junit.Assert.fail(Assert.java:89)'',
                             msg_location = None\<rparr>]\<rparr>]"
  by code_simp

theorem C7_failure_location_witness:
  "tc_stackTrace ex_located =
     Some ([''java.lang.AssertionError: boom''] @
           ''    at org.foo.FooTest.caseA(FooTest.java:12)'' # []) \<and>
   test_uri (heap ex_unranged) 1 = Some ex_uri \<and>
   no_line (basename (uri_path ex_uri)) [''java.lang.AssertionError: boom''] \<and>
   frame_pattern ''    at org.foo.FooTest.caseA(FooTest.java:12)'' (basename (uri_path ex_uri)) ''12'' \<and>
   parseInt ''12'' = Some (Finite 12) \<and>
   (\<exists>m. result_message (heap ex_unranged) 0 (Some 1) ex_located = Inr (Some m) \<and>
        msg_location m =
          Some \<lparr>loc_uri = Some ex_uri, loc_pos = \<lparr>pos_line = Finite 11, pos_character = 0\<rparr>\<rparr>) \<and>
   item_uri (heap ex_nested ! 2) = None \<and> item_parent (heap ex_nested ! 2) = Some 3 \<and>
   test_uri (heap ex_nested) 2 = Some ex_uri \<and>
   (\<exists>m. result_message (heap ex_nested) 0 (Some 2) ex_located = Inr (Some m) \<and>
        msg_location m =
          Some \<lparr>loc_uri = Some ex_uri, loc_pos = \<lparr>pos_line = Finite 11, pos_character = 0\<rparr>\<rparr>)"
proof -
  let ?pre = "[''java.lang.AssertionError: boom'']"
  let ?frame = "''    at org.foo.FooTest.caseA(FooTest.java:12)''"
  have st: "tc_stackTrace ex_located = Some (?pre @ ?frame # [])"
    by (simp add: ex_located_def)
  have u: "test_uri (heap ex_unranged) 1 = Some ex_uri"
    by (simp add: test_uri_def ex_unranged_def)
  have p: "item_uri (heap ex_nested ! 2) = None" "item_parent (heap ex_nested ! 2) = Some 3"
    "test_uri (heap ex_nested) 2 = Some ex_uri"
    by code_simp+
  have nl: "no_line (basename (uri_path ex_uri)) ?pre"
    by (simp add: no_line_Cons frame_line_def ex_frames) (simp add: no_line_def)
  have fp: "frame_pattern ?frame (basename (uri_path ex_uri)) ''12''"
    by (simp add: ex_basename ex_frames flip: frame_match_iff)
  note pi = ex_parseInt
  have "''12'' \<noteq> [] \<and> decimal ''12'' < 2 ^ 53 \<longrightarrow>
      minus_one (Finite (decimal ''12'')) = Finite (decimal ''12'' - 1)"
    using C7_failure_location[OF st, of "heap ex_unranged" 0] by blast
  then have m1: "minus_one (Finite 12) = Finite 11"
    using pi by simp
  from C7_failure_location[OF st, of "heap ex_unranged" 0] u
  obtain m where m: "result_message (heap ex_unranged) 0 (Some 1) ex_located = Inr (Some m)"
    and loc: "\<And>pre frame post ds l.
       ?pre @ ?frame # [] = pre @ frame # post \<and>
       no_line (basename (uri_path ex_uri)) pre \<and>
       frame_pattern frame (basename (uri_path ex_uri)) ds \<and> parseInt ds = Some l \<and> l \<noteq> Finite 0 \<Longrightarrow>
       msg_location m =
         Some \<lparr>loc_uri = Some ex_uri, loc_pos = \<lparr>pos_line = minus_one l, pos_character = 0\<rparr>\<rparr>"
    by blast
  have a: "msg_location m =
      Some \<lparr>loc_uri = Some ex_uri, loc_pos = \<lparr>pos_line = minus_one (Finite 12), pos_character = 0\<rparr>\<rparr>"
    by (rule loc[of ?pre ?frame "[]" "''12''" "Finite 12"]) (simp add: nl fp pi)
  from C7_failure_location[OF st, of "heap ex_nested" 0] p(3)
  obtain m' where m': "result_message (heap ex_nested) 0 (Some 2) ex_located = Inr (Some m')"
    and loc': "\<And>pre frame post ds l.
       ?pre @ ?frame # [] = pre @ frame # post \<and>
       no_line (basename (uri_path ex_uri)) pre \<and>
       frame_pattern frame (basename (uri_path ex_uri)) ds \<and> parseInt ds = Some l \<and> l \<noteq> Finite 0 \<Longrightarrow>
       msg_location m' =
         Some \<lparr>loc_uri = Some ex_uri, loc_pos = \<lparr>pos_line = minus_one l, pos_character = 0\<rparr>\<rparr>"
    by blast
  have b: "msg_location m' =
      Some \<lparr>loc_uri = Some ex_uri, loc_pos = \<lparr>pos_line = minus_one (Finite 12), pos_character = 0\<rparr>\<rparr>"
    by (rule loc'[of ?pre ?frame "[]" "''12''" "Finite 12"]) (simp add: nl fp pi)
  from m a m' b st u p nl fp pi show ?thesis
    by (simp add: m1)
qed

subsection \<open>Collections of items\<close>

lemma parent_free_fields [simp]:
  "parent_free item_range" "parent_free item_id" "parent_free item_uri" "parent_free item_label"
  "parent_free item_children"
  by (simp_all add: parent_free_def)



lemma length_heap_children_add [simp]: "length (heap (children_add s owner a)) = length (heap s)"
  by (simp add: children_add_def Let_def)

















subsection \<open>Tests reported during a run\<close>

lemma keeps_id_nth: "keeps (\<lambda>it. it) s s1 \<Longrightarrow> a < length (heap s) \<Longrightarrow> heap s1 ! a = heap s ! a"
  by (simp add: keeps_def)

lemma keeps_id_children:
  assumes "keeps (\<lambda>it. it) s s1" "suite_ok s cs"
  shows "item_children (heap s1 ! cs) = item_children (heap s ! cs)"
    and "x \<in> set (item_children (heap s ! cs)) \<Longrightarrow> heap s1 ! x = heap s ! x"
  using assms by (simp_all add: keeps_def suite_ok_def)


lemma keeps_id_filter:
  assumes "keeps (\<lambda>it. it) s s1" "suite_ok s cs"
  shows "filter (\<lambda>x. P (item_id (heap s1 ! x))) (item_children (heap s1 ! cs)) =
         filter (\<lambda>x. P (item_id (heap s ! x))) (item_children (heap s ! cs))"
proof -
  have "item_children (heap s1 ! cs) = item_children (heap s ! cs)"
    using assms by (rule keeps_id_children)
  moreover have "filter (\<lambda>x. P (item_id (heap s1 ! x))) (item_children (heap s ! cs)) =
         filter (\<lambda>x. P (item_id (heap s ! x))) (item_children (heap s ! cs))"
    by (rule filter_cong) (simp_all add: keeps_id_children(2)[OF assms])
  ultimately show ?thesis by simp
qed



lemma map_fst_map_set:
  "map fst (map_set k v ps) = (if k \<in> fst ` set ps then map fst ps else map fst ps @ [k])"
  by (induction ps) auto

lemma distinct_map_set: "distinct (map fst ps) \<Longrightarrow> distinct (map fst (map_set k v ps))"
  by (simp add: map_fst_map_set)

lemma set_map_set: "set (map_set k v ps) \<subseteq> insert (k, v) (set ps)"
  by (induction ps) auto









lemma forEach_ok_Cons:
  "forEach f (x # xs) s = (None, s') \<longleftrightarrow> (\<exists>s1. f x s = (None, s1) \<and> forEach f xs s1 = (None, s'))"
  by (cases "f x s") (auto split: option.splits)


















subsection \<open>The pending set of a run\<close>

lemma last_state_alt:
  "last_state log a =
     (if filter (\<lambda>r. rep_item r = a) log = [] then None
      else Some (rep_state (last (filter (\<lambda>r. rep_item r = a) log))))"
  by (simp add: last_state_def split: list.splits)

lemma last_state_snoc:
  "last_state (log @ [r]) a = (if rep_item r = a then Some (rep_state r) else last_state log a)"
  by (simp add: last_state_alt)

lemma last_state_Nil [simp]: "last_state [] a = None"
  by (simp add: last_state_def)

lemma tracking_report_state:
  assumes "tracking s" "currentRun s = Some log"
  shows "tracking (report_state s log a st m)"
proof -
  from assms obtain p where p: "itemsToRun s = Some p"
    "\<forall>b. b \<in> set p \<longleftrightarrow> last_state log b = Some Enqueued"
    "\<forall>r \<in> set log. rep_state r \<noteq> Loaded"
    by (auto simp: tracking_def)
  show ?thesis
    using assms(2) p
    by (cases st)
       (auto simp: tracking_def report_state_def last_state_snoc set_add_def set_delete_def)
qed

lemma set_state_preserves:
  assumes "\<And>s log a. I s \<Longrightarrow> currentRun s = Some log \<Longrightarrow> I (report_state s log a st m)"
  shows "I s \<Longrightarrow> I (snd (set_state d s a st m npd))"
proof (induction d arbitrary: s a)
  case 0
  then show ?case by simp
next
  case (Suc d)
  show ?case
  proof (cases "currentRun s")
    case None
    then show ?thesis using Suc.prems by simp
  next
    case (Some log)
    have t1: "I (report_state s log a st m)"
      using Suc.prems Some by (rule assms)
    have "I (snd (forEach (\<lambda>child s'. set_state d s' child st m npd)
          (item_children (heap (report_state s log a st m) ! a)) (report_state s log a st m)))"
      using t1 by (intro forEach_invariant[where I = I] Suc.IH)
    with t1 show ?thesis by (cases npd) (simp_all add: Some Let_def)
  qed
qed

lemma progress_test_preserves:
  assumes "\<And>s a st m npd. I s \<Longrightarrow> I (snd (set_state d s a st m npd))"
  shows "I (fst acc) \<Longrightarrow> I (fst (snd (progress_test d cs t acc)))"
proof -
  assume t: "I (fst acc)"
  obtain s msgs where acc: "acc = (s, msgs)" by (cases acc) auto
  have "I (snd (set_state d s ct st m True))" for ct st m
    using t by (simp add: acc assms)
  then show ?thesis
    using t
    by (auto simp: acc progress_test_def case_prod_beta split: sum.splits option.splits)
qed

lemma testProgress_preserves:
  assumes upd: "\<And>s te. I s \<Longrightarrow> I (snd (updateTests s suite te))"
    and st: "\<And>s a st m npd. I s \<Longrightarrow> I (snd (set_state d s a st m npd))"
  shows "I s \<Longrightarrow> I (snd (testProgress d s suite))"
proof -
  assume t: "I s"
  have u: "I (snd (updateTests s suite te))" for te
    using t by (rule upd)
  have rest: "I (snd (case ts_tests suite of
             None \<Rightarrow> (None, s)
           | Some tests \<Rightarrow>
               (case updateTests s suite True of
                  (Some e, s1) \<Rightarrow> (Some e, s1)
                | (None, s1) \<Rightarrow>
                    (case coll_get (heap s) (items s) (ts_name suite) of
                       None \<Rightarrow> (None, s1)
                     | Some cs \<Rightarrow>
                         (case forEach (progress_test d cs) tests (s1, []) of
                            (Some e, (s2, suiteMessages)) \<Rightarrow> (Some e, s2)
                          | (None, (s2, suiteMessages)) \<Rightarrow>
                              if suiteMessages \<noteq> [] then
                                (case set_state d s2 cs Errored (Some suiteMessages) True of
                                   (Some e, s3) \<Rightarrow> (Some e, s3)
                                 | (None, s3) \<Rightarrow>
                                     forEach (\<lambda>item s'. set_state d s' item Skipped None False)
                                       (item_children (heap s3 ! cs)) s3)
                              else (None, s2))))))"
  proof (cases "ts_tests suite")
    case None
    then show ?thesis using t by simp
  next
    case (Some tests)
    obtain e s1 where u1: "updateTests s suite True = (e, s1)"
      by (cases "updateTests s suite True")
    with u[of True] have t1: "I s1" by simp
    show ?thesis
    proof (cases "coll_get (heap s) (items s) (ts_name suite)")
      case None
      then show ?thesis using t1 by (cases e) (simp_all add: Some u1)
    next
      case (Some cs)
      obtain e2 s2 msgs where f: "forEach (progress_test d cs) tests (s1, []) = (e2, (s2, msgs))"
        by (cases "forEach (progress_test d cs) tests (s1, [])") auto
      have "I (fst (snd (forEach (progress_test d cs) tests (s1, []))))"
      proof (rule forEach_invariant[where I = "\<lambda>acc. I (fst acc)"])
        fix x and acc :: "adapter \<times> test_message list"
        assume a: "I (fst acc)"
        show "I (fst (snd (progress_test d cs x acc)))"
          by (rule progress_test_preserves[where I = I]) (erule st, rule a)
      qed (simp add: t1)
      then have t2: "I s2" by (simp add: f)
      obtain e3 s3 where se: "set_state d s2 cs Errored (Some msgs) True = (e3, s3)"
        by (cases "set_state d s2 cs Errored (Some msgs) True")
      have t3: "I s3"
        using st[OF t2, of cs Errored "Some msgs" True] by (simp add: se)
      have t4: "I (snd (forEach (\<lambda>item s'. set_state d s' item Skipped None False)
                                       (item_children (heap s3 ! cs)) s3))"
        using t3 by (intro forEach_invariant[where I = I] st)
      show ?thesis
        using t1 t2 t3 t4
        by (cases e; cases e2; cases e3) (simp_all add: \<open>ts_tests suite = Some tests\<close> u1 Some f se)
    qed
  qed
  show ?thesis
  proof (cases "ts_state suite")
    case SuiteLoaded
    then show ?thesis using u by (simp add: testProgress_def)
  next
    case SuiteStarted
    then show ?thesis using t
      by (simp add: testProgress_def st split: option.splits)
  next
    case SuiteCompleted
    then show ?thesis using rest by (simp add: testProgress_def)
  next
    case SuiteErrored
    then show ?thesis using rest by (simp add: testProgress_def)
  qed
qed

text \<open>Invariants of the loops of \<open>run\<close>, for a property of the adapter alone.\<close>

lemma await_command_preserves:
  assumes ex: "\<And>s c. I s \<Longrightarrow> I (s\<lparr>executed := executed s @ [c]\<rparr>)"
    and tp: "\<And>s suite. I s \<Longrightarrow> I (snd (testProgress d s suite))"
  shows "I (fst acc) \<Longrightarrow> I (fst (snd (await_command d c acc)))"
proof -
  assume t: "I (fst acc)"
  obtain s rs cancelled where acc: "acc = (s, rs, cancelled)" by (cases acc) auto
  have f: "I (fold (\<lambda>suite s'. snd (testProgress d s' suite)) evs s1)" if "I s1" for evs s1
    using that by (induction evs arbitrary: s1) (simp_all add: tp)
  show ?thesis
    using t by (cases rs) (simp_all add: acc await_command_def ex f)
qed

lemma run_single_preserves:
  assumes ex: "\<And>s c. I s \<Longrightarrow> I (s\<lparr>executed := executed s @ [c]\<rparr>)"
    and tp: "\<And>s suite. I s \<Longrightarrow> I (snd (testProgress d s suite))"
    and st: "\<And>s a st m npd. I s \<Longrightarrow> I (snd (set_state d s a st m npd))"
  shows "I (fst acc) \<Longrightarrow> I (fst (snd (run_single d dbg item acc)))"
proof -
  assume t: "I (fst acc)"
  obtain s rs cancelled where acc: "acc = (s, rs, cancelled)" by (cases acc) auto
  show ?thesis
  proof (cases "item_uri (heap s ! item)")
    case None
    then show ?thesis using t by (simp add: acc run_single_def)
  next
    case (Some u)
    obtain e s1 where se: "set_state d s item Enqueued None False = (e, s1)"
      by (cases "set_state d s item Enqueued None False")
    have t1: "I s1"
      using st[of s item Enqueued None False] t by (simp add: acc se)
    then have "I (fst (snd (await_command d c (s1, rs, cancelled))))" for c
      by (intro await_command_preserves[where I = I] ex tp) simp_all
    then show ?thesis
      using t1 by (cases e) (simp_all add: acc run_single_def Some se)
  qed
qed

lemma run_folder_preserves:
  assumes ex: "\<And>s c. I s \<Longrightarrow> I (s\<lparr>executed := executed s @ [c]\<rparr>)"
    and tp: "\<And>s suite. I s \<Longrightarrow> I (snd (testProgress d s suite))"
  shows "I (fst acc) \<Longrightarrow> I (fst (snd (run_folder d dbg folder acc)))"
proof -
  assume t: "I (fst acc)"
  obtain s rs cancelled where acc: "acc = (s, rs, cancelled)" by (cases acc) auto
  have "I (fst (snd (await_command d c (s, rs, cancelled))))" for c
    using t by (intro await_command_preserves[where I = I] ex tp) (simp_all add: acc)
  then show ?thesis
    using t by (cases cancelled) (simp_all add: acc run_folder_def)
qed


lemma tracking_set_state: "tracking s \<Longrightarrow> tracking (snd (set_state d s a st m npd))"
  by (rule set_state_preserves[where I = tracking]) (rule tracking_report_state)

lemma tracking_run_kept: "run_kept s s' \<Longrightarrow> tracking s \<Longrightarrow> tracking s'"
  by (simp add: run_kept_def tracking_def)

lemma tracking_updateTests: "tracking s \<Longrightarrow> tracking (snd (updateTests s suite te))"
  using updateTests_run_kept[of s suite te] by (rule tracking_run_kept)

lemma tracking_testProgress: "tracking s \<Longrightarrow> tracking (snd (testProgress d s suite))"
  by (rule testProgress_preserves[where I = tracking])
     (simp_all add: tracking_updateTests tracking_set_state)

lemma tracking_executed: "tracking s \<Longrightarrow> tracking (s\<lparr>executed := x\<rparr>)"
  by (simp add: tracking_def)

lemma pending_report_state:
  "st \<noteq> Enqueued \<Longrightarrow> pending (report_state s log a st m) \<subseteq> pending s - {a} \<or> st = Loaded"
  by (cases st; cases "itemsToRun s") (auto simp: pending_def report_state_def set_delete_def)

lemma pending_shrinks:
  assumes "st \<noteq> Enqueued"
  shows "pending s \<subseteq> X \<Longrightarrow> pending (snd (set_state d s a st m npd)) \<subseteq> X"
proof (rule set_state_preserves[where I = "\<lambda>s. pending s \<subseteq> X"])
  fix s' :: adapter and log b
  assume "pending s' \<subseteq> X"
  then show "pending (report_state s' log b st m) \<subseteq> X"
    using pending_report_state[OF assms, of s' log b m]
    by (cases "st = Loaded") (auto simp: report_state_def)
qed

lemma set_state_removes:
  assumes "currentRun s \<noteq> None" "st \<noteq> Enqueued" "st \<noteq> Loaded"
    and "fst (set_state d s a st m npd) = None"
  shows "pending (snd (set_state d s a st m npd)) \<subseteq> pending s - {a}"
proof (cases d)
  case 0
  then show ?thesis using assms by simp
next
  case (Suc d')
  from assms(1) obtain log where log: "currentRun s = Some log" by auto
  let ?s1 = "report_state s log a st m"
  have 1: "pending ?s1 \<subseteq> pending s - {a}"
    using pending_report_state[OF assms(2), of s log a m] assms(3) by simp
  have "pending (snd (forEach (\<lambda>child s'. set_state d' s' child st m npd)
          (item_children (heap ?s1 ! a)) ?s1)) \<subseteq> pending s - {a}"
    using 1
    by (intro forEach_invariant[where I = "\<lambda>s'. pending s' \<subseteq> pending s - {a}"]
          pending_shrinks[OF assms(2)])
  with 1 show ?thesis
    by (cases npd) (simp_all add: Suc log Let_def)
qed

lemma tracking_currentRun: "tracking s \<Longrightarrow> currentRun s \<noteq> None"
  by (auto simp: tracking_def)

text \<open>The sweep of the pending set at the end of \<open>run\<close>.\<close>

lemma sweep_pending:
  "tracking s \<Longrightarrow> forEach (skip_pending d) xs s = (None, s2) \<Longrightarrow>
   tracking s2 \<and> ended s2 = ended s \<and> pending s2 \<subseteq> pending s - set xs"
proof (induction xs arbitrary: s)
  case Nil
  then show ?case by simp
next
  case (Cons x xs)
  from Cons.prems(2) obtain s1 where
    s1: "skip_pending d x s = (None, s1)" "forEach (skip_pending d) xs s1 = (None, s2)"
    by (auto simp: forEach_ok_Cons simp del: forEach.simps)
  have t1: "tracking s1"
    using s1(1) tracking_set_state[OF Cons.prems(1), of d x Skipped None False] Cons.prems(1)
    by (auto simp: skip_pending_def split: if_splits)
  have e1: "ended s1 = ended s"
    using s1(1) set_state_preserves[where I = "\<lambda>s'. ended s' = ended s" and s = s
        and st = Skipped and m = None and d = d and a = x and npd = False]
    by (auto simp: skip_pending_def report_state_def split: if_splits)
  have p1: "pending s1 \<subseteq> pending s - {x}"
  proof (cases "x \<in> set (case itemsToRun s of None \<Rightarrow> [] | Some xs \<Rightarrow> xs)")
    case True
    with s1(1) have "set_state d s x Skipped None False = (None, s1)"
      by (simp add: skip_pending_def)
    with set_state_removes[of s Skipped d x None False] tracking_currentRun[OF Cons.prems(1)]
    show ?thesis by simp
  next
    case False
    with s1(1) show ?thesis by (auto simp: skip_pending_def pending_def split: option.splits)
  qed
  from Cons.IH[OF t1 s1(2)] e1 p1 show ?case by auto
qed

lemma close_out_ok:
  assumes "tracking s1" "close_out d s1 = (None, s')"
  shows "currentRun s' = None \<and> itemsToRun s' = None \<and>
         (\<exists>log. ended s' = ended s1 @ [log] \<and> (\<forall>r \<in> set log. rep_state r \<noteq> Loaded) \<and>
            (\<forall>a. last_state log a \<noteq> Some Enqueued))"
proof -
  from assms(1) obtain p where p: "itemsToRun s1 = Some p"
    by (auto simp: tracking_def)
  obtain e s2 where f: "forEach (skip_pending d) p s1 = (e, s2)"
    by (cases "forEach (skip_pending d) p s1")
  with assms(2) p have e: "e = None"
    by (cases e) (simp_all add: close_out_def)
  from sweep_pending[OF assms(1) f[unfolded e]]
  have t2: "tracking s2" and e2: "ended s2 = ended s1" and p2: "pending s2 \<subseteq> pending s1 - set p"
    by simp_all
  from t2 obtain log p' where l: "currentRun s2 = Some log" "itemsToRun s2 = Some p'"
    "\<forall>a. a \<in> set p' \<longleftrightarrow> last_state log a = Some Enqueued"
    "\<forall>r \<in> set log. rep_state r \<noteq> Loaded"
    by (auto simp: tracking_def)
  from p2 p l(2) have "set p' = {}" by (auto simp: pending_def)
  with l(3) have none: "\<forall>a. last_state log a \<noteq> Some Enqueued" by auto
  have "s' = s2\<lparr>itemsToRun := None, ended := ended s2 @ [log], currentRun := None\<rparr>"
    using assms(2) by (simp add: close_out_def p f e l(1))
  then show ?thesis
    using none l(4) e2 by auto
qed

lemma run_unfold:
  "run d s request cancellation folders responses =
     (case run_loops d (s\<lparr>currentRun := Some [], itemsToRun := Some []\<rparr>) request cancellation
             folders responses of
        (Some e, (s1, rest)) \<Rightarrow> (Some e, s1)
      | (None, (s1, rest)) \<Rightarrow> close_out d s1)"
  by (simp add: run_def run_loops_def Let_def)

lemma run_loops_preserves:
  assumes ex: "\<And>s c. I s \<Longrightarrow> I (s\<lparr>executed := executed s @ [c]\<rparr>)"
    and tp: "\<And>s suite. I s \<Longrightarrow> I (snd (testProgress d s suite))"
    and st: "\<And>s a st m npd. I s \<Longrightarrow> I (snd (set_state d s a st m npd))"
    and s0: "I s0"
  shows "I (fst (snd (run_loops d s0 request cancellation folders responses)))"
proof (cases "req_include request")
  case (Some sel)
  have "I (fst (snd (forEach (run_single d (req_debug request)) (selection (heap s0) sel)
                  (s0, responses, cancellation))))"
  proof (rule forEach_invariant[where I = "\<lambda>acc. I (fst acc)"])
    fix x and acc :: "adapter \<times> response list \<times> bool"
    assume a: "I (fst acc)"
    show "I (fst (snd (run_single d (req_debug request) x acc)))"
      by (rule run_single_preserves[where I = I]) (erule ex, erule tp, erule st, rule a)
  qed (simp add: s0)
  then show ?thesis by (simp add: run_loops_def Some)
next
  case None
  obtain e s1 where f: "forEach (\<lambda>item s'. set_state d s' item Enqueued None False) (items s0) s0 = (e, s1)"
    by (cases "forEach (\<lambda>item s'. set_state d s' item Enqueued None False) (items s0) s0")
  have "I (snd (forEach (\<lambda>item s'. set_state d s' item Enqueued None False) (items s0) s0))"
    using s0 by (intro forEach_invariant[where I = I] st)
  then have s1: "I s1" by (simp add: f)
  have "I (fst (snd (forEach (run_folder d (req_debug request)) folders (s1, responses, cancellation))))"
  proof (rule forEach_invariant[where I = "\<lambda>acc. I (fst acc)"])
    fix x and acc :: "adapter \<times> response list \<times> bool"
    assume a: "I (fst acc)"
    show "I (fst (snd (run_folder d (req_debug request) x acc)))"
      by (rule run_folder_preserves[where I = I]) (erule ex, erule tp, rule a)
  qed (simp add: s1)
  then show ?thesis
    using s1 by (cases e) (simp_all add: run_loops_def None f)
qed

lemma tracking_ended_report_state:
  "tracking s \<and> ended s = E \<Longrightarrow> currentRun s = Some log \<Longrightarrow>
   tracking (report_state s log a st m) \<and> ended (report_state s log a st m) = E"
proof -
  assume a: "tracking s \<and> ended s = E" and l: "currentRun s = Some log"
  have "tracking (report_state s log a st m)"
    using a l by (simp add: tracking_report_state)
  moreover have "ended (report_state s log a st m) = E"
    using a by (cases st) (simp_all add: report_state_def)
  ultimately show ?thesis by simp
qed

lemma tracking_ended_loops:
  assumes "tracking s0"
  shows "tracking (fst (snd (run_loops d s0 request cancellation folders responses))) \<and>
         ended (fst (snd (run_loops d s0 request cancellation folders responses))) = ended s0"
proof (rule run_loops_preserves[where I = "\<lambda>s. tracking s \<and> ended s = ended s0"])
  have st: "tracking (snd (set_state d s a st m npd)) \<and> ended (snd (set_state d s a st m npd)) = ended s0"
    if "tracking s \<and> ended s = ended s0" for s a st m npd
    by (rule set_state_preserves[where I = "\<lambda>s. tracking s \<and> ended s = ended s0"])
       (erule tracking_ended_report_state, assumption, rule that)
  have up: "tracking (snd (updateTests s suite te)) \<and> ended (snd (updateTests s suite te)) = ended s0"
    if "tracking s \<and> ended s = ended s0" for s suite te
    using that updateTests_run_kept[of s suite te] tracking_updateTests[of s suite te]
    by (simp add: run_kept_def)
  show "tracking (s\<lparr>executed := executed s @ [c]\<rparr>) \<and> ended (s\<lparr>executed := executed s @ [c]\<rparr>) = ended s0"
    if "tracking s \<and> ended s = ended s0" for s c
    using that by (simp add: tracking_def)
  show "tracking (snd (testProgress d s suite)) \<and> ended (snd (testProgress d s suite)) = ended s0"
    if "tracking s \<and> ended s = ended s0" for s suite
    by (rule testProgress_preserves[where I = "\<lambda>s. tracking s \<and> ended s = ended s0"])
       (erule up, erule st, rule that)
  show "tracking (snd (set_state d s a st m npd)) \<and> ended (snd (set_state d s a st m npd)) = ended s0"
    if "tracking s \<and> ended s = ended s0" for s a st m npd
    using that by (rule st)
  show "tracking s0 \<and> ended s0 = ended s0"
    using assms by simp
qed

lemma last_state_append:
  "last_state (l1 @ l2) a = (case last_state l2 a of None \<Rightarrow> last_state l1 a | Some x \<Rightarrow> Some x)"
  by (simp add: last_state_alt)

lemma last_state_all:
  "\<forall>r \<in> set l. rep_state r = st \<Longrightarrow> last_state l a = None \<or> last_state l a = Some st"
proof -
  assume a: "\<forall>r \<in> set l. rep_state r = st"
  let ?f = "filter (\<lambda>r. rep_item r = a) l"
  show ?thesis
  proof (cases "?f = []")
    case True
    then show ?thesis by (simp add: last_state_alt)
  next
    case False
    then have "last ?f \<in> set ?f" by (rule last_in_set)
    then have "last ?f \<in> set l" by simp
    with a False show ?thesis by (simp add: last_state_alt)
  qed
qed

lemma five_states:
  assumes "\<forall>r \<in> set log. rep_state r \<noteq> Loaded" "last_state log a \<noteq> Some Enqueued"
    and "\<exists>r \<in> set log. rep_item r = a \<and> rep_state r = Enqueued"
  shows "last_state log a \<in> {Some Started, Some Passed, Some Failed, Some Skipped, Some Errored}"
proof -
  let ?f = "filter (\<lambda>r. rep_item r = a) log"
  from assms(3) have ne: "?f \<noteq> []" by (auto simp: filter_empty_conv)
  then have ls: "last_state log a = Some (rep_state (last ?f))"
    by (simp add: last_state_alt)
  have "last ?f \<in> set ?f" using ne by (rule last_in_set)
  then have "last ?f \<in> set log" by simp
  with assms(1) have "rep_state (last ?f) \<noteq> Loaded" by blast
  moreover from assms(2) ls have "rep_state (last ?f) \<noteq> Enqueued" by auto
  ultimately show ?thesis
    by (cases "rep_state (last ?f)") (simp_all add: ls)
qed

text \<open>The sweep makes calls for the state \<open>skipped\<close> only.\<close>

lemma sweep_calls:
  assumes "currentRun s = Some log1"
  shows "\<exists>sweep. currentRun (snd (forEach (skip_pending d) xs s)) = Some (log1 @ sweep) \<and>
           (\<forall>r \<in> set sweep. rep_state r = Skipped)"
proof (rule forEach_invariant[where
      I = "\<lambda>s'. \<exists>sweep. currentRun s' = Some (log1 @ sweep) \<and> (\<forall>r \<in> set sweep. rep_state r = Skipped)"])
  show "\<exists>sweep. currentRun s = Some (log1 @ sweep) \<and> (\<forall>r \<in> set sweep. rep_state r = Skipped)"
    using assms by simp
next
  fix x and s' :: adapter
  assume i: "\<exists>sweep. currentRun s' = Some (log1 @ sweep) \<and> (\<forall>r \<in> set sweep. rep_state r = Skipped)"
  have "\<exists>sweep. currentRun (snd (set_state d s' x Skipped None False)) = Some (log1 @ sweep) \<and>
          (\<forall>r \<in> set sweep. rep_state r = Skipped)"
  proof (rule set_state_preserves[where
        I = "\<lambda>s'. \<exists>sweep. currentRun s' = Some (log1 @ sweep) \<and> (\<forall>r \<in> set sweep. rep_state r = Skipped)"])
    fix t :: adapter and log a
    assume "\<exists>sweep. currentRun t = Some (log1 @ sweep) \<and> (\<forall>r \<in> set sweep. rep_state r = Skipped)"
      and "currentRun t = Some log"
    then obtain sweep where "log = log1 @ sweep" "\<forall>r \<in> set sweep. rep_state r = Skipped"
      by auto
    then show "\<exists>sweep. currentRun (report_state t log a Skipped None) = Some (log1 @ sweep) \<and>
          (\<forall>r \<in> set sweep. rep_state r = Skipped)"
      by (intro exI[of _ "sweep @ [\<lparr>rep_item = a, rep_state = Skipped, rep_messages = []\<rparr>]"])
         (simp add: report_state_def)
  qed (rule i)
  with i show "\<exists>sweep. currentRun (snd (skip_pending d x s')) = Some (log1 @ sweep) \<and>
          (\<forall>r \<in> set sweep. rep_state r = Skipped)"
    by (simp add: skip_pending_def)
qed

lemma close_out_sweep:
  assumes t: "tracking s1" and co: "close_out d s1 = (None, s')"
    and l1: "currentRun s1 = Some log1" and p1: "itemsToRun s1 = Some pend"
  shows "\<exists>sweep. ended s' = ended s1 @ [log1 @ sweep] \<and>
           (\<forall>r \<in> set sweep. rep_state r = Skipped) \<and>
           (\<forall>a \<in> set pend. last_state (log1 @ sweep) a = Some Skipped) \<and>
           (\<forall>a. last_state (log1 @ sweep) a \<noteq> Some Enqueued) \<and>
           (\<forall>r \<in> set (log1 @ sweep). rep_state r \<noteq> Loaded)"
proof -
  obtain e s2 where f: "forEach (skip_pending d) pend s1 = (e, s2)"
    by (cases "forEach (skip_pending d) pend s1")
  with co p1 have e: "e = None"
    by (cases e) (simp_all add: close_out_def)
  from sweep_calls[OF l1, of d pend] obtain sweep where
    sw: "currentRun s2 = Some (log1 @ sweep)" "\<forall>r \<in> set sweep. rep_state r = Skipped"
    by (auto simp: f)
  from sweep_pending[OF t f[unfolded e]]
  have t2: "tracking s2" and e2: "ended s2 = ended s1" and p2: "pending s2 \<subseteq> pending s1 - set pend"
    by simp_all
  from t2 sw(1) obtain p' where l: "itemsToRun s2 = Some p'"
    "\<forall>a. a \<in> set p' \<longleftrightarrow> last_state (log1 @ sweep) a = Some Enqueued"
    "\<forall>r \<in> set (log1 @ sweep). rep_state r \<noteq> Loaded"
    by (auto simp: tracking_def)
  from p2 p1 l(1) have "set p' = {}" by (auto simp: pending_def)
  with l(2) have none: "\<forall>a. last_state (log1 @ sweep) a \<noteq> Some Enqueued" by auto
  from t l1 p1 have pe: "\<forall>a. a \<in> set pend \<longleftrightarrow> last_state log1 a = Some Enqueued"
    by (auto simp: tracking_def)
  have sk: "last_state (log1 @ sweep) a = Some Skipped" if "a \<in> set pend" for a
  proof -
    from that pe have 1: "last_state log1 a = Some Enqueued" by simp
    from last_state_all[OF sw(2), of a] show ?thesis
    proof
      assume "last_state sweep a = None"
      with 1 have "last_state (log1 @ sweep) a = Some Enqueued"
        by (simp add: last_state_append)
      with none show ?thesis by simp
    next
      assume "last_state sweep a = Some Skipped"
      then show ?thesis by (simp add: last_state_append)
    qed
  qed
  have "s' = s2\<lparr>itemsToRun := None, ended := ended s2 @ [log1 @ sweep], currentRun := None\<rparr>"
    using co by (simp add: close_out_def p1 f e sw(1))
  then have "ended s' = ended s1 @ [log1 @ sweep]"
    by (simp add: e2)
  with sw(2) sk none l(3) show ?thesis by blast
qed

text \<open>
  Claim C2, as amended. When \<open>run\<close> returns, its two loops have returned, the run is
  ended and there is no pending set any more. The calls made on the handle of the run
  are those of the loops, \<open>log1\<close>, and then the calls of the sweep, all of them for the
  state \<open>skipped\<close>. The set that was pending when the loops returned held exactly the
  items whose last state in \<open>log1\<close> is \<open>enqueued\<close>, and each of them ends the run as
  \<open>skipped\<close>. So no item has \<open>enqueued\<close> as its last state, and every item that was
  enqueued in the run ends it in one of \<open>started\<close>, \<open>passed\<close>, \<open>failed\<close>, \<open>skipped\<close>,
  \<open>errored\<close>. (An item that was reported as started has left the pending set, is not
  swept, and may end the run as \<open>started\<close>.)
\<close>

theorem C2_run_close_out:
  assumes "run d s request cancellation folders responses = (None, s')"
  shows "currentRun s' = None \<and> itemsToRun s' = None \<and>
         (\<exists>s1 rest log1 pend sweep.
            run_loops d (s\<lparr>currentRun := Some [], itemsToRun := Some []\<rparr>) request cancellation
              folders responses = (None, (s1, rest)) \<and>
            currentRun s1 = Some log1 \<and> itemsToRun s1 = Some pend \<and>
            (\<forall>a. a \<in> set pend \<longleftrightarrow> last_state log1 a = Some Enqueued) \<and>
            ended s' = ended s @ [log1 @ sweep] \<and>
            (\<forall>r \<in> set sweep. rep_state r = Skipped) \<and>
            (\<forall>a \<in> set pend. last_state (log1 @ sweep) a = Some Skipped) \<and>
            (\<forall>a. last_state (log1 @ sweep) a \<noteq> Some Enqueued) \<and>
            (\<forall>a. (\<exists>r \<in> set (log1 @ sweep). rep_item r = a \<and> rep_state r = Enqueued) \<longrightarrow>
               last_state (log1 @ sweep) a \<in>
                 {Some Started, Some Passed, Some Failed, Some Skipped, Some Errored}))"
proof -
  let ?s0 = "s\<lparr>currentRun := Some [], itemsToRun := Some []\<rparr>"
  let ?l = "run_loops d ?s0 request cancellation folders responses"
  obtain e s1 rest where l: "?l = (e, (s1, rest))"
    by (cases ?l) auto
  from assms have e: "e = None" and co: "close_out d s1 = (None, s')"
    by (cases e; simp add: run_unfold l)+
  have "tracking ?s0"
    by (simp add: tracking_def)
  from tracking_ended_loops[OF this, of d request cancellation folders responses]
  have t1: "tracking s1" and e1: "ended s1 = ended s"
    by (simp_all add: l)
  from t1 obtain log1 pend where lp: "currentRun s1 = Some log1" "itemsToRun s1 = Some pend"
    "\<forall>a. a \<in> set pend \<longleftrightarrow> last_state log1 a = Some Enqueued"
    by (auto simp: tracking_def)
  from close_out_ok[OF t1 co] have r: "currentRun s' = None" "itemsToRun s' = None"
    by auto
  from close_out_sweep[OF t1 co lp(1,2)] obtain sweep where
    sw: "ended s' = ended s1 @ [log1 @ sweep]" "\<forall>r \<in> set sweep. rep_state r = Skipped"
      "\<forall>a \<in> set pend. last_state (log1 @ sweep) a = Some Skipped"
      "\<forall>a. last_state (log1 @ sweep) a \<noteq> Some Enqueued"
      "\<forall>r \<in> set (log1 @ sweep). rep_state r \<noteq> Loaded"
    by blast
  have five: "last_state (log1 @ sweep) a \<in>
      {Some Started, Some Passed, Some Failed, Some Skipped, Some Errored}"
    if "\<exists>r \<in> set (log1 @ sweep). rep_item r = a \<and> rep_state r = Enqueued" for a
    using sw(5) _ that by (rule five_states) (use sw(4) in simp)
  have "\<exists>s1 rest log1 pend sweep.
            ?l = (None, (s1, rest)) \<and>
            currentRun s1 = Some log1 \<and> itemsToRun s1 = Some pend \<and>
            (\<forall>a. a \<in> set pend \<longleftrightarrow> last_state log1 a = Some Enqueued) \<and>
            ended s' = ended s @ [log1 @ sweep] \<and>
            (\<forall>r \<in> set sweep. rep_state r = Skipped) \<and>
            (\<forall>a \<in> set pend. last_state (log1 @ sweep) a = Some Skipped) \<and>
            (\<forall>a. last_state (log1 @ sweep) a \<noteq> Some Enqueued) \<and>
            (\<forall>a. (\<exists>r \<in> set (log1 @ sweep). rep_item r = a \<and> rep_state r = Enqueued) \<longrightarrow>
               last_state (log1 @ sweep) a \<in>
                 {Some Started, Some Passed, Some Failed, Some Skipped, Some Errored})"
    using l[unfolded e] lp sw(1,2,3,4) five e1
    by (intro exI[of _ s1] exI[of _ rest] exI[of _ log1] exI[of _ pend] exI[of _ sweep]) simp
  with r show ?thesis by simp
qed

theorem C2_counterexample:
  "fst ex_run_all = None \<and>
   ended (snd ex_run_all) =
     [[\<lparr>rep_item = 0, rep_state = Enqueued, rep_messages = []\<rparr>,
       \<lparr>rep_item = 1, rep_state = Enqueued, rep_messages = []\<rparr>,
       \<lparr>rep_item = 0, rep_state = Started, rep_messages = []\<rparr>,
       \<lparr>rep_item = 1, rep_state = Started, rep_messages = []\<rparr>]] \<and>
   last_state (last (ended (snd ex_run_all))) 1 = Some Started"
  by code_simp

theorem C2_run_close_out_witness:
  "fst ex_run_quiet = None \<and>
   currentRun (snd ex_run_quiet) = None \<and> itemsToRun (snd ex_run_quiet) = None \<and>
   itemsToRun (fst (snd (run_loops 2 (ex_adapter\<lparr>currentRun := Some [], itemsToRun := Some []\<rparr>)
       \<lparr>req_include = None, req_debug = False\<rparr> False [''file:///p''] []))) = Some [0, 1] \<and>
   ended (snd ex_run_quiet) =
     [[\<lparr>rep_item = 0, rep_state = Enqueued, rep_messages = []\<rparr>,
       \<lparr>rep_item = 1, rep_state = Enqueued, rep_messages = []\<rparr>,
       \<lparr>rep_item = 0, rep_state = Skipped, rep_messages = []\<rparr>,
       \<lparr>rep_item = 1, rep_state = Skipped, rep_messages = []\<rparr>]] \<and>
   last_state (last (ended (snd ex_run_quiet))) 0 = Some Skipped \<and>
   last_state (last (ended (snd ex_run_quiet))) 1 = Some Skipped"
proof -
  let ?req = "\<lparr>req_include = None, req_debug = False\<rparr>"
  let ?l = "run_loops 2 (ex_adapter\<lparr>currentRun := Some [], itemsToRun := Some []\<rparr>) ?req False
              [''file:///p''] []"
  have h: "fst ex_run_quiet = None"
    by code_simp
  then have r: "run 2 ex_adapter ?req False [''file:///p''] [] = (None, snd ex_run_quiet)"
    by (simp add: ex_run_quiet_def prod_eq_iff)
  have p: "itemsToRun (fst (snd ?l)) = Some [0, 1]" "ended ex_adapter = []"
    by code_simp+
  have c: "ended (snd ex_run_quiet) =
     [[\<lparr>rep_item = 0, rep_state = Enqueued, rep_messages = []\<rparr>,
       \<lparr>rep_item = 1, rep_state = Enqueued, rep_messages = []\<rparr>,
       \<lparr>rep_item = 0, rep_state = Skipped, rep_messages = []\<rparr>,
       \<lparr>rep_item = 1, rep_state = Skipped, rep_messages = []\<rparr>]]"
    by code_simp
  from C2_run_close_out[OF r] obtain s1 rest log1 pend sweep where
    w: "currentRun (snd ex_run_quiet) = None" "itemsToRun (snd ex_run_quiet) = None"
      "?l = (None, (s1, rest))" "itemsToRun s1 = Some pend"
      "ended (snd ex_run_quiet) = ended ex_adapter @ [log1 @ sweep]"
      "\<forall>a \<in> set pend. last_state (log1 @ sweep) a = Some Skipped"
    by blast
  from w(3,4) p(1) have "pend = [0, 1]" by simp
  with w(5,6) p(2) have "last_state (last (ended (snd ex_run_quiet))) 0 = Some Skipped"
    "last_state (last (ended (snd ex_run_quiet))) 1 = Some Skipped"
    by simp_all
  with h w(1,2) p(1) c show ?thesis by simp
qed

subsection \<open>What suite events leave of the items\<close>

lemma range_free_fields [simp]:
  "range_free item_id" "range_free item_uri" "range_free item_label" "range_free item_children"
  "range_free item_parent"
  by (simp_all add: range_free_def)

lemma keeps_set_range:
  "range_free f \<Longrightarrow> keeps f s0 s \<Longrightarrow> keeps f s0 (set_range s a r)"
  by (cases "a < length (heap s)")
     (auto simp: keeps_def set_range_def range_free_def nth_list_update)

lemma keeps_update_test:
  "link_free f \<Longrightarrow> range_free f \<Longrightarrow> keeps f s0 s \<Longrightarrow>
   keeps f s0 (fst (update_test te cs t (s, children, parentTests)))"
  by (auto simp: update_test_def case_prod_beta keeps_create keeps_children_add keeps_set_range
      split: option.splits list.splits)

lemma keeps_fold_update_test:
  "link_free f \<Longrightarrow> range_free f \<Longrightarrow> keeps f s0 (fst acc) \<Longrightarrow>
   keeps f s0 (fst (fold (update_test te cs) ts acc))"
proof (induction ts arbitrary: acc)
  case Nil
  then show ?case by simp
next
  case (Cons t ts)
  obtain s children parentTests where acc: "acc = (s, children, parentTests)"
    by (cases acc) auto
  from Cons.prems have "keeps f s0 (fst (update_test te cs t acc))"
    by (simp add: acc keeps_update_test)
  with Cons.IH Cons.prems(1,2) show ?case by simp
qed

lemma updateTests_keeps:
  assumes "link_free f" "range_free f" "keeps f s0 s"
  shows "keeps f s0 (snd (updateTests s suite te))"
proof -
  let ?cs = "fst (current_suite s suite)" and ?s1 = "snd (current_suite s suite)"
  have k1: "keeps f s0 ?s1"
    using keeps_current_suite[of f s suite] assms(3) by (rule keeps_trans[rotated])
  show ?thesis
  proof (cases te)
    case True
    let ?acc = "fold (update_test True ?cs) (case ts_tests suite of None \<Rightarrow> [] | Some ts \<Rightarrow> ts) (?s1, [], [])"
    have "keeps f s0 (fst ?acc)"
      using assms k1 by (simp add: keeps_fold_update_test)
    then have "keeps f s0 (snd (forEach (nest_parent ?cs) (snd (snd ?acc)) (fst ?acc)))"
      using assms(1) by (intro forEach_invariant[where I = "keeps f s0"] keeps_nest_parent)
    then show ?thesis
      by (simp add: updateTests_def case_prod_beta True)
  next
    case False
    let ?s1' = "if ts_range suite \<noteq> None then set_range ?s1 ?cs (ts_range suite) else ?s1"
    let ?acc = "fold (update_test False ?cs) (case ts_tests suite of None \<Rightarrow> [] | Some ts \<Rightarrow> ts) (?s1', [], [])"
    have "keeps f s0 ?s1'"
      using assms k1 by (simp add: keeps_set_range)
    then have "keeps f s0 (fst ?acc)"
      using assms(1,2) by (intro keeps_fold_update_test) simp_all
    then have "keeps f s0 (snd (children_replace (fst ?acc) ?cs (fst (snd ?acc))))"
      using assms(1) by (intro keeps_children_replace)
    then show ?thesis
      by (simp add: updateTests_def case_prod_beta False)
  qed
qed

lemma heap_report_state [simp]: "heap (report_state s log a st m) = heap s"
  by (cases st) (simp_all add: report_state_def)

lemma executed_report_state [simp]: "executed (report_state s log a st m) = executed s"
  by (cases st) (simp_all add: report_state_def)

lemma heap_set_state [simp]: "heap (snd (set_state d s a st m npd)) = heap s"
  by (rule set_state_preserves[where I = "\<lambda>s'. heap s' = heap s"]) simp_all

lemma executed_set_state [simp]: "executed (snd (set_state d s a st m npd)) = executed s"
  by (rule set_state_preserves[where I = "\<lambda>s'. executed s' = executed s"]) simp_all

lemma keeps_heap_eq: "heap s' = heap s \<Longrightarrow> keeps f s0 s \<Longrightarrow> keeps f s0 s'"
  by (simp add: keeps_def)

lemma testProgress_keeps:
  assumes "link_free f" "range_free f"
  shows "keeps f s0 s \<Longrightarrow> keeps f s0 (snd (testProgress d s suite))"
proof (rule testProgress_preserves[where I = "keeps f s0"])
  show "keeps f s0 (snd (updateTests s suite te))" if "keeps f s0 s" for s te
    using assms that by (rule updateTests_keeps)
  show "keeps f s0 (snd (set_state d s a st m npd))" if "keeps f s0 s" for s a st m npd
    using that by (rule keeps_heap_eq[rotated]) simp
qed

lemma testProgress_executed: "executed (snd (testProgress d s suite)) = executed s"
proof (rule testProgress_preserves[where I = "\<lambda>s'. executed s' = executed s"])
  show "executed (snd (updateTests s' suite te)) = executed s" if "executed s' = executed s" for s' te
    using that updateTests_run_kept[of s' suite te] by (simp add: run_kept_def)
  show "executed (snd (set_state d s' a st m npd)) = executed s" if "executed s' = executed s" for s' a st m npd
    using that by simp
qed simp

subsection \<open>The selection of a run\<close>

lemma selection_sel_map: "selection h sel = map snd (sel_map h sel [])"
  by (simp add: selection_def sel_map_def)

lemma selection_entry_id: "fst (selection_entry h a) = item_id (h ! snd (selection_entry h a))"
  by (simp add: selection_entry_def split: option.splits)

lemma keys_map_set: "fst ` set (map_set k v m) = insert k (fst ` set m)"
  by (induction m) auto

lemma sel_map_Cons:
  "sel_map h (a # sel) m =
     sel_map h sel (map_set (fst (selection_entry h a)) (snd (selection_entry h a)) m)"
  by (simp add: sel_map_def)

lemma sel_map_keys:
  "fst ` set (sel_map h sel m) = fst ` set m \<union> (\<lambda>a. fst (selection_entry h a)) ` set sel"
proof (induction sel arbitrary: m)
  case Nil
  then show ?case by (simp add: sel_map_def)
next
  case (Cons a sel)
  show ?case
    unfolding sel_map_Cons Cons.IH keys_map_set by auto
qed

lemma sel_map_distinct: "distinct (map fst m) \<Longrightarrow> distinct (map fst (sel_map h sel m))"
proof (induction sel arbitrary: m)
  case Nil
  then show ?case by (simp add: sel_map_def)
next
  case (Cons a sel)
  then show ?case
    unfolding sel_map_Cons by (intro Cons.IH distinct_map_set)
qed

lemma sel_map_values:
  "snd ` set (sel_map h sel m) \<subseteq> snd ` set m \<union> (\<lambda>a. snd (selection_entry h a)) ` set sel"
proof (induction sel arbitrary: m)
  case Nil
  then show ?case by (simp add: sel_map_def)
next
  case (Cons a sel)
  have "snd ` set (map_set (fst (selection_entry h a)) (snd (selection_entry h a)) m)
          \<subseteq> insert (snd (selection_entry h a)) (snd ` set m)"
    using set_map_set[of "fst (selection_entry h a)" "snd (selection_entry h a)" m] by auto
  with Cons.IH[of "map_set (fst (selection_entry h a)) (snd (selection_entry h a)) m"]
  show ?case
    unfolding sel_map_Cons by auto
qed

lemma sel_map_key_id:
  "\<forall>kv \<in> set m. fst kv = item_id (h ! snd kv) \<Longrightarrow>
   \<forall>kv \<in> set (sel_map h sel m). fst kv = item_id (h ! snd kv)"
proof (induction sel arbitrary: m)
  case Nil
  then show ?case by (simp add: sel_map_def)
next
  case (Cons a sel)
  have "\<forall>kv \<in> set (map_set (fst (selection_entry h a)) (snd (selection_entry h a)) m).
          fst kv = item_id (h ! snd kv)"
    using Cons.prems set_map_set[of "fst (selection_entry h a)" "snd (selection_entry h a)" m]
      selection_entry_id[of h a]
    by auto
  then show ?case
    unfolding sel_map_Cons by (rule Cons.IH)
qed

lemma selection_ids_eq: "coll_ids h (selection h sel) = map fst (sel_map h sel [])"
  using sel_map_key_id[of "[]" h sel] by (simp add: selection_sel_map coll_ids_def)

lemma selection_distinct: "distinct (coll_ids h (selection h sel))"
  using sel_map_distinct[of "[]" h sel] by (simp add: selection_ids_eq)

lemma selection_members: "set (selection h sel) \<subseteq> (\<lambda>a. snd (selection_entry h a)) ` set sel"
  using sel_map_values[of h sel "[]"] by (simp add: selection_sel_map)

lemma selection_ids:
  "set (coll_ids h (selection h sel)) = (\<lambda>a. fst (selection_entry h a)) ` set sel"
  using sel_map_keys[of h sel "[]"] by (simp add: selection_ids_eq)


lemma fold_testProgress_executed:
  "executed (fold (\<lambda>suite s'. snd (testProgress d s' suite)) evs s) = executed s"
  by (induction evs arbitrary: s) (simp_all add: testProgress_executed)

lemma await_command_executed:
  "executed (fst (snd (await_command d c (s, rs, cancelled)))) = executed s @ [c]"
  by (cases rs) (simp_all add: await_command_def fold_testProgress_executed)

lemma keeps_executed_update: "keeps f s0 s \<Longrightarrow> keeps f s0 (s\<lparr>executed := x\<rparr>)"
  by (simp add: keeps_def)

lemma run_single_keeps:
  assumes "link_free f" "range_free f"
  shows "keeps f s0 (fst acc) \<Longrightarrow> keeps f s0 (fst (snd (run_single d dbg item acc)))"
proof (rule run_single_preserves[where I = "keeps f s0"])
  show "keeps f s0 (s\<lparr>executed := executed s @ [c]\<rparr>)" if "keeps f s0 s" for s c
    using that by (rule keeps_executed_update)
  show "keeps f s0 (snd (testProgress d s suite))" if "keeps f s0 s" for s suite
    using assms that by (rule testProgress_keeps)
  show "keeps f s0 (snd (set_state d s a st m npd))" if "keeps f s0 s" for s a st m npd
    using that by (rule keeps_heap_eq[rotated]) simp
qed

text \<open>What one turn of the loop over the selection sends.\<close>

lemma run_single_executed:
  assumes k: "keeps item_id s0 s1" "keeps item_uri s0 s1" and v: "item < length (heap s0)"
  shows "\<exists>sent. executed (fst (snd (run_single d dbg item (s1, rs, cancelled)))) = executed s1 @ sent \<and>
           (sent = [] \<or> item_uri (heap s0 ! item) \<noteq> None \<and> sent = [single_command (heap s0) dbg item]) \<and>
           (fst (run_single d dbg item (s1, rs, cancelled)) = None \<and> item_uri (heap s0 ! item) \<noteq> None \<longrightarrow>
              sent = [single_command (heap s0) dbg item])"
proof -
  from k v have u: "item_uri (heap s1 ! item) = item_uri (heap s0 ! item)"
    and i: "item_id (heap s1 ! item) = item_id (heap s0 ! item)"
    by (simp_all add: keeps_def)
  show ?thesis
  proof (cases "item_uri (heap s0 ! item)")
    case None
    then show ?thesis using u by (simp add: run_single_def)
  next
    case (Some uri)
    obtain e s2 where se: "set_state d s1 item Enqueued None False = (e, s2)"
      by (cases "set_state d s1 item Enqueued None False")
    have h2: "heap s2 = heap s1" "executed s2 = executed s1"
      using heap_set_state[of d s1 item Enqueued None False]
        executed_set_state[of d s1 item Enqueued None False] by (simp_all add: se)
    show ?thesis
    proof (cases e)
      case None
      have "executed (fst (snd (run_single d dbg item (s1, rs, cancelled)))) =
          executed s1 @ [single_command (heap s0) dbg item]"
        using u i Some None
        by (simp add: run_single_def se await_command_executed h2 single_command_def)
      then show ?thesis using Some by simp
    next
      case (Some err)
      then have "run_single d dbg item (s1, rs, cancelled) = (Some err, (s2, rs, cancelled))"
        using u \<open>item_uri (heap s0 ! item) = Some uri\<close> by (simp add: run_single_def se)
      then show ?thesis by (simp add: h2)
    qed
  qed
qed

text \<open>
  The commands sent by the loop are those of the items that have a URI, in order: all
  of them when the loop returns, the first ones when it throws.
\<close>

lemma run_singles_executed:
  "\<forall>a \<in> set xs. a < length (heap s0) \<Longrightarrow>
   keeps item_id s0 (fst acc) \<Longrightarrow> keeps item_uri s0 (fst acc) \<Longrightarrow>
   \<exists>k. executed (fst (snd (forEach (run_single d dbg) xs acc))) =
         executed (fst acc) @
         take k (map (single_command (heap s0) dbg) (filter (\<lambda>a. item_uri (heap s0 ! a) \<noteq> None) xs)) \<and>
       (fst (forEach (run_single d dbg) xs acc) = None \<longrightarrow>
          k = length (filter (\<lambda>a. item_uri (heap s0 ! a) \<noteq> None) xs))"
proof (induction xs arbitrary: acc)
  case Nil
  then show ?case by simp
next
  case (Cons x xs)
  let ?L = "filter (\<lambda>a. item_uri (heap s0 ! a) \<noteq> None) xs"
  let ?c = "single_command (heap s0) dbg"
  obtain s1 rs cancelled where acc: "acc = (s1, rs, cancelled)" by (cases acc) auto
  obtain e acc1 where r: "run_single d dbg x (s1, rs, cancelled) = (e, acc1)"
    by (cases "run_single d dbg x (s1, rs, cancelled)")
  from run_single_executed[of s0 s1 x d dbg rs cancelled] Cons.prems
  obtain sent where sent: "executed (fst acc1) = executed s1 @ sent"
    "sent = [] \<or> item_uri (heap s0 ! x) \<noteq> None \<and> sent = [?c x]"
    "e = None \<and> item_uri (heap s0 ! x) \<noteq> None \<longrightarrow> sent = [?c x]"
    by (auto simp: acc r)
  show ?case
  proof (cases e)
    case (Some err)
    then have f: "forEach (run_single d dbg) (x # xs) acc = (Some err, acc1)"
      by (simp add: acc r)
    from sent(2) show ?thesis
    proof
      assume "sent = []"
      then show ?thesis
        using sent(1) unfolding f by (intro exI[of _ 0]) (simp add: acc)
    next
      assume "item_uri (heap s0 ! x) \<noteq> None \<and> sent = [?c x]"
      then show ?thesis
        using sent(1) unfolding f by (intro exI[of _ 1]) (simp add: acc)
    qed
  next
    case None
    then have f: "forEach (run_single d dbg) (x # xs) acc = forEach (run_single d dbg) xs acc1"
      by (simp add: acc r)
    have k1: "keeps item_id s0 (fst acc1)" "keeps item_uri s0 (fst acc1)"
      using run_single_keeps[of item_id s0 acc d dbg x] run_single_keeps[of item_uri s0 acc d dbg x]
        Cons.prems(2,3)
      by (simp_all add: acc r)
    from Cons.IH[OF _ k1] Cons.prems(1) obtain k where
      k: "executed (fst (snd (forEach (run_single d dbg) xs acc1))) =
            executed (fst acc1) @ take k (map ?c ?L)"
        "fst (forEach (run_single d dbg) xs acc1) = None \<longrightarrow> k = length ?L"
      by auto
    show ?thesis
    proof (cases "item_uri (heap s0 ! x)")
      case None
      with sent(2) have "sent = []" by auto
      with k sent(1) None show ?thesis
        unfolding f by (intro exI[of _ k]) (simp add: acc)
    next
      case (Some u)
      with sent(3) \<open>e = None\<close> have "sent = [?c x]" by simp
      with k sent(1) Some show ?thesis
        unfolding f by (intro exI[of _ "Suc k"]) (simp add: acc)
    qed
  qed
qed

lemma close_out_executed: "executed (snd (close_out d s)) = executed s"
proof (cases "itemsToRun s")
  case None
  then show ?thesis by (simp add: close_out_def)
next
  case (Some p)
  obtain e s1 where f: "forEach (skip_pending d) p s = (e, s1)"
    by (cases "forEach (skip_pending d) p s")
  have "executed (snd (forEach (skip_pending d) p s)) = executed s"
    by (rule forEach_invariant[where I = "\<lambda>s'. executed s' = executed s"])
       (simp_all add: skip_pending_def)
  then have "executed s1 = executed s" by (simp add: f)
  then show ?thesis
    by (cases e; cases "currentRun s1") (simp_all add: close_out_def Some f)
qed

text \<open>
  With calls enough for the items it reaches, and a server that sends no event and
  rejects no command, the run of a selection returns.
\<close>

lemma forEach_total:
  assumes "\<And>x s. x \<in> set xs \<Longrightarrow> I s \<Longrightarrow> fst (g x s) = None \<and> I (snd (g x s))" and "I s"
  shows "fst (forEach g xs s) = None \<and> I (snd (forEach g xs s))"
  using assms
proof (induction xs arbitrary: s)
  case Nil
  then show ?case by simp
next
  case (Cons x xs)
  from Cons.prems(1)[of x s] Cons.prems(2) obtain s1 where
    g: "g x s = (None, s1)" "I s1"
    by (cases "g x s") auto
  from Cons.IH[of s1] Cons.prems(1) g(2) show ?case
    by (simp add: g(1))
qed

lemma depth_le_Suc: "depth_le h d a \<Longrightarrow> depth_le h (Suc d) a"
  by (induction d arbitrary: a) auto

lemma depth_le_descendants: "b \<in> descendants h a \<Longrightarrow> depth_le h d a \<Longrightarrow> depth_le h d b"
proof (induction rule: descendants.induct)
  case self
  then show ?case by simp
next
  case (child b c)
  then have b: "depth_le h d b" by simp
  then obtain d' where d': "d = Suc d'" by (cases d) auto
  with b child.hyps(2) have "depth_le h d' c" by simp
  then show ?case unfolding d' by (rule depth_le_Suc)
qed

lemma pending_apply_reports:
  "pending (apply_reports s bs Enqueued m) \<subseteq> pending s \<union> set bs"
  "st \<noteq> Enqueued \<Longrightarrow> pending (apply_reports s bs st m) \<subseteq> pending s"
  by (cases "itemsToRun s"; auto simp: pending_def apply_reports_def fold_set_add fold_set_delete)+

lemma run_single_quiet:
  assumes h: "heap s = h" and run: "currentRun s \<noteq> None" and d: "depth_le h d item"
    and q: "\<forall>r \<in> set rs. \<not> resp_rejected r \<and> resp_events r = []"
  shows "\<exists>s' rs' cn'. run_single d dbg item (s, rs, cn) = (None, (s', rs', cn')) \<and>
           heap s' = h \<and> currentRun s' \<noteq> None \<and>
           (itemsToRun s \<noteq> None \<longrightarrow> itemsToRun s' \<noteq> None) \<and>
           pending s' \<subseteq> pending s \<union> descendants h item \<and>
           (\<forall>r \<in> set rs'. \<not> resp_rejected r \<and> resp_events r = [])"
proof (cases "item_uri (heap s ! item)")
  case None
  then show ?thesis using h run q by (simp add: run_single_def)
next
  case (Some u)
  let ?s1 = "apply_reports s (subtree h d item) Enqueued None"
  have se: "set_state d s item Enqueued None False = (None, ?s1)"
    using set_state_subtree[of s d item Enqueued None] d run by (simp add: h)
  have p: "pending ?s1 \<subseteq> pending s \<union> descendants h item"
    using pending_apply_reports(1)[of s "subtree h d item" None] set_subtree[OF d] by simp
  have i: "itemsToRun s \<noteq> None \<longrightarrow> itemsToRun ?s1 \<noteq> None"
    by (simp add: apply_reports_def)
  have cr: "currentRun ?s1 \<noteq> None"
    using run by simp
  let ?c = "\<lparr>cmd_name = (if dbg then ''java.debug.single'' else ''java.run.single''),
             cmd_uri = uri_text u, cmd_selector = id_suffix (item_id (heap ?s1 ! item))\<rparr>"
  let ?s2 = "?s1\<lparr>executed := executed ?s1 @ [?c]\<rparr>"
  have s2: "heap ?s2 = h" "currentRun ?s2 \<noteq> None" "itemsToRun s \<noteq> None \<longrightarrow> itemsToRun ?s2 \<noteq> None"
    "pending ?s2 \<subseteq> pending s \<union> descendants h item"
    using h cr i p by (simp_all add: pending_def)
  have "\<exists>rs' cn'. run_single d dbg item (s, rs, cn) = (None, (?s2, rs', cn')) \<and>
          (\<forall>r \<in> set rs'. \<not> resp_rejected r \<and> resp_events r = [])"
  proof (cases rs)
    case Nil
    then show ?thesis
      using Some se by (simp add: run_single_def await_command_def)
  next
    case (Cons r rs')
    with q have "\<not> resp_rejected r" "resp_events r = []"
      "\<forall>r \<in> set rs'. \<not> resp_rejected r \<and> resp_events r = []"
      by simp_all
    then show ?thesis
      using Some se Cons by (simp add: run_single_def await_command_def)
  qed
  with s2 show ?thesis by blast
qed

lemma close_out_returns:
  assumes run: "currentRun s \<noteq> None" and p: "itemsToRun s \<noteq> None"
    and d: "\<forall>x \<in> pending s. depth_le (heap s) d x"
  shows "fst (close_out d s) = None"
proof -
  from p obtain pend where pend: "itemsToRun s = Some pend" by auto
  let ?I = "\<lambda>s'. heap s' = heap s \<and> currentRun s' \<noteq> None \<and> pending s' \<subseteq> pending s"
  have "fst (forEach (skip_pending d) pend s) = None \<and> ?I (snd (forEach (skip_pending d) pend s))"
  proof (rule forEach_total[where I = ?I])
    fix x and s' :: adapter
    assume i: "?I s'"
    show "fst (skip_pending d x s') = None \<and> ?I (snd (skip_pending d x s'))"
    proof (cases "x \<in> set (case itemsToRun s' of None \<Rightarrow> [] | Some xs \<Rightarrow> xs)")
      case False
      then have "skip_pending d x s' = (None, s')"
        unfolding skip_pending_def by (rule if_not_P)
      with i show ?thesis by simp
    next
      case True
      then have "x \<in> pending s'" by (cases "itemsToRun s'") (simp_all add: pending_def)
      with i d have dx: "depth_le (heap s') d x" by auto
      have "set_state d s' x Skipped None False =
          (None, apply_reports s' (subtree (heap s') d x) Skipped None)"
        using dx i by (intro set_state_subtree) simp_all
      moreover have "pending (apply_reports s' (subtree (heap s') d x) Skipped None) \<subseteq> pending s'"
        by (rule pending_apply_reports(2)) simp
      moreover have "skip_pending d x s' = set_state d s' x Skipped None False"
        unfolding skip_pending_def using True by (rule if_P)
      ultimately show ?thesis
        using i by auto
    qed
  qed (use run in simp)
  then obtain s2 where f: "forEach (skip_pending d) pend s = (None, s2)" "currentRun s2 \<noteq> None"
    by (cases "forEach (skip_pending d) pend s") auto
  then show ?thesis
    by (auto simp: close_out_def pend)
qed

lemma run_quiet:
  assumes sel: "req_include request = Some sel"
    and d: "\<forall>a \<in> set (selection (heap s) sel). depth_le (heap s) d a"
    and q: "\<forall>r \<in> set responses. \<not> resp_rejected r \<and> resp_events r = []"
  shows "fst (run d s request cancellation folders responses) = None"
proof -
  let ?s0 = "s\<lparr>currentRun := Some [], itemsToRun := Some []\<rparr>"
  let ?L = "selection (heap s) sel"
  let ?D = "\<Union>a \<in> set ?L. descendants (heap s) a"
  let ?I = "\<lambda>acc. heap (fst acc) = heap s \<and> currentRun (fst acc) \<noteq> None \<and>
              itemsToRun (fst acc) \<noteq> None \<and> pending (fst acc) \<subseteq> ?D \<and>
              (\<forall>r \<in> set (fst (snd acc)). \<not> resp_rejected r \<and> resp_events r = [])"
  let ?f = "forEach (run_single d (req_debug request)) ?L (?s0, responses, cancellation)"
  have "fst ?f = None \<and> ?I (snd ?f)"
  proof (rule forEach_total[where I = ?I])
    fix x and acc :: "adapter \<times> response list \<times> bool"
    assume x: "x \<in> set ?L" and i: "?I acc"
    obtain s1 rs cn where acc: "acc = (s1, rs, cn)" by (cases acc) auto
    from x d have dx: "depth_le (heap s) d x" by simp
    from run_single_quiet[of s1 "heap s" d x rs "req_debug request" cn] i dx
    obtain s' rs' cn' where
      r: "run_single d (req_debug request) x (s1, rs, cn) = (None, (s', rs', cn'))"
        "heap s' = heap s" "currentRun s' \<noteq> None" "itemsToRun s' \<noteq> None"
        "pending s' \<subseteq> pending s1 \<union> descendants (heap s) x"
        "\<forall>r \<in> set rs'. \<not> resp_rejected r \<and> resp_events r = []"
      by (auto simp: acc)
    from r(5) i x have "pending s' \<subseteq> ?D" by (auto simp: acc)
    with r show "fst (run_single d (req_debug request) x acc) = None \<and>
        ?I (snd (run_single d (req_debug request) x acc))"
      by (simp add: acc)
  qed (use q in \<open>simp add: pending_def\<close>)
  then obtain s1 rest where f: "?f = (None, (s1, rest))"
    and s1: "heap s1 = heap s" "currentRun s1 \<noteq> None" "itemsToRun s1 \<noteq> None" "pending s1 \<subseteq> ?D"
    by (cases ?f) auto
  have "\<forall>x \<in> pending s1. depth_le (heap s1) d x"
  proof
    fix x
    assume "x \<in> pending s1"
    with s1(4) obtain a where "a \<in> set ?L" "x \<in> descendants (heap s) a" by auto
    with d show "depth_le (heap s1) d x"
      by (auto simp: s1(1) intro: depth_le_descendants)
  qed
  with s1 have "fst (close_out d s1) = None"
    by (intro close_out_returns) simp_all
  then show ?thesis
    by (simp add: run_def sel f)
qed

text \<open>
  Claim C6, as amended. A run with an explicit selection, whether it returns or throws,
  has sent, after the commands sent before, one \<open>java.run.single\<close> or
  \<open>java.debug.single\<close> command for each item of the deduplicated selection that has a
  file URI, in order: for all of them when it returns, for the first ones when it
  throws; and it returns when the calls of \<open>set\<close> reach all that is below the items and
  the server sends no event and rejects no command. The ids of the deduplicated
  selection are pairwise distinct and are exactly the ids under which the selected
  items are entered, and each of its items is the entry of a selected item. A selected
  child with no URI of its own whose parent has a URI is entered as its parent: the
  child itself is not in the deduplicated selection, the id of its parent is. A
  selected item that has a URI of its own is entered as itself, under its own id,
  whether or not its parent is selected too.
\<close>

theorem C6_selection_deduplicated:
  assumes valid: "\<forall>a \<in> set sel. a < length (heap s) \<and>
                    (\<forall>p. item_parent (heap s ! a) = Some p \<longrightarrow> p < length (heap s))"
    and sel: "req_include request = Some sel"
    and fin: "run d s request cancellation folders responses = (e, s')"
  shows "(\<exists>k. executed s' =
              executed s @
              take k (map (single_command (heap s) (req_debug request))
                (filter (\<lambda>a. item_uri (heap s ! a) \<noteq> None) (selection (heap s) sel))) \<and>
            (e = None \<longrightarrow>
               k = length (filter (\<lambda>a. item_uri (heap s ! a) \<noteq> None) (selection (heap s) sel)))) \<and>
         ((\<forall>a \<in> set (selection (heap s) sel). depth_le (heap s) d a) \<and>
          (\<forall>r \<in> set responses. \<not> resp_rejected r \<and> resp_events r = []) \<longrightarrow> e = None) \<and>
         distinct (coll_ids (heap s) (selection (heap s) sel)) \<and>
         set (coll_ids (heap s) (selection (heap s) sel)) =
           (\<lambda>a. fst (selection_entry (heap s) a)) ` set sel \<and>
         set (selection (heap s) sel) \<subseteq> (\<lambda>a. snd (selection_entry (heap s) a)) ` set sel \<and>
         (\<forall>c \<in> set sel. \<forall>p.
            item_uri (heap s ! c) = None \<and> item_parent (heap s ! c) = Some p \<and>
            item_uri (heap s ! p) \<noteq> None \<longrightarrow>
            selection_entry (heap s) c = (item_id (heap s ! p), p) \<and>
            c \<notin> set (selection (heap s) sel) \<and>
            item_id (heap s ! p) \<in> set (coll_ids (heap s) (selection (heap s) sel))) \<and>
         (\<forall>c \<in> set sel. item_uri (heap s ! c) \<noteq> None \<longrightarrow>
            selection_entry (heap s) c = (item_id (heap s ! c), c) \<and>
            item_id (heap s ! c) \<in> set (coll_ids (heap s) (selection (heap s) sel)))"
proof -
  let ?h = "heap s"
  let ?s0 = "s\<lparr>currentRun := Some [], itemsToRun := Some []\<rparr>"
  let ?L = "selection ?h sel"
  let ?U = "filter (\<lambda>a. item_uri (?h ! a) \<noteq> None) ?L"
  let ?l = "forEach (run_single d (req_debug request)) ?L (?s0, responses, cancellation)"
  obtain e1 acc1 where l: "?l = (e1, acc1)" by (cases ?l)
  have entry_valid: "snd (selection_entry ?h a) < length ?h" if "a \<in> set sel" for a
    using valid that by (auto simp: selection_entry_def split: option.splits)
  have L_valid: "\<forall>a \<in> set ?L. a < length (heap ?s0)"
    using selection_members[of ?h sel] entry_valid by auto
  from run_singles_executed[of ?L ?s0 "(?s0, responses, cancellation)" d "req_debug request"] L_valid
  obtain k where
    k: "executed (fst acc1) = executed s @ take k (map (single_command ?h (req_debug request)) ?U)"
      "e1 = None \<longrightarrow> k = length ?U"
    by (auto simp: l)
  have ex: "executed s' = executed (fst acc1)" and ee: "e = None \<longrightarrow> e1 = None"
  proof -
    show "executed s' = executed (fst acc1)"
    proof (cases e1)
      case None
      then have "close_out d (fst acc1) = (e, s')"
        using fin by (simp add: run_def sel l case_prod_beta)
      with close_out_executed[of d "fst acc1"] show ?thesis by simp
    next
      case (Some err)
      then show ?thesis
        using fin by (simp add: run_def sel l case_prod_beta)
    qed
    show "e = None \<longrightarrow> e1 = None"
      using fin by (cases e1) (simp_all add: run_def sel l case_prod_beta)
  qed
  have 1: "\<exists>k. executed s' = executed s @ take k (map (single_command ?h (req_debug request)) ?U) \<and>
            (e = None \<longrightarrow> k = length ?U)"
    using k ex ee by (intro exI[of _ k]) simp
  have 2: "e = None"
    if "(\<forall>a \<in> set ?L. depth_le ?h d a) \<and> (\<forall>r \<in> set responses. \<not> resp_rejected r \<and> resp_events r = [])"
    using run_quiet[OF sel, of s d responses cancellation folders] that fin by simp
  have 4: "selection_entry ?h c = (item_id (?h ! p), p) \<and> c \<notin> set ?L \<and>
           item_id (?h ! p) \<in> set (coll_ids ?h ?L)"
    if c: "c \<in> set sel" "item_uri (?h ! c) = None \<and> item_parent (?h ! c) = Some p \<and>
            item_uri (?h ! p) \<noteq> None" for c p
  proof -
    have en: "selection_entry ?h c = (item_id (?h ! p), p)"
      using c(2) by (auto simp: selection_entry_def)
    have "c \<noteq> snd (selection_entry ?h a)" for a
      using c(2) by (auto simp: selection_entry_def split: option.splits)
    then have "c \<notin> set ?L"
      using selection_members[of ?h sel] by auto
    moreover have "item_id (?h ! p) \<in> set (coll_ids ?h ?L)"
      using c(1) en by (force simp: selection_ids)
    ultimately show ?thesis using en by simp
  qed
  have 5: "selection_entry ?h c = (item_id (?h ! c), c) \<and> item_id (?h ! c) \<in> set (coll_ids ?h ?L)"
    if c: "c \<in> set sel" "item_uri (?h ! c) \<noteq> None" for c
  proof -
    have en: "selection_entry ?h c = (item_id (?h ! c), c)"
      using c(2) by (auto simp: selection_entry_def)
    moreover have "item_id (?h ! c) \<in> set (coll_ids ?h ?L)"
      using c(1) en by (force simp: selection_ids)
    ultimately show ?thesis by simp
  qed
  show ?thesis
    using 1 2 4 5 selection_distinct[of ?h sel] selection_members[of ?h sel] selection_ids[of ?h sel]
    by blast
qed

theorem C6_counterexample:
  "item_parent (heap ex_adapter ! 1) = Some 0 \<and>
   item_uri (heap ex_adapter ! 0) = Some ex_uri \<and> item_uri (heap ex_adapter ! 1) = Some ex_uri \<and>
   selection (heap ex_adapter) [0, 1] = [0, 1] \<and>
   run 2 ex_adapter \<lparr>req_include = Some [0, 1], req_debug = False\<rparr> False [] [] =
     (None, ex_adapter\<lparr>ended :=
        [[\<lparr>rep_item = 0, rep_state = Enqueued, rep_messages = []\<rparr>,
          \<lparr>rep_item = 1, rep_state = Enqueued, rep_messages = []\<rparr>,
          \<lparr>rep_item = 1, rep_state = Enqueued, rep_messages = []\<rparr>,
          \<lparr>rep_item = 0, rep_state = Skipped, rep_messages = []\<rparr>,
          \<lparr>rep_item = 1, rep_state = Skipped, rep_messages = []\<rparr>]],
        executed :=
          [\<lparr>cmd_name = ''java.run.single'', cmd_uri = ''file:///p/FooTest.java'', cmd_selector = None\<rparr>,
           \<lparr>cmd_name = ''java.run.single'', cmd_uri = ''file:///p/FooTest.java'', cmd_selector = None\<rparr>]\<rparr>)"
  by code_simp

theorem C6_selection_deduplicated_witness:
  "req_include ex_request = Some [3, 2] \<and>
   length (heap ex_nested) = 4 \<and>
   item_parent (heap ex_nested ! 3) = Some 0 \<and> item_parent (heap ex_nested ! 2) = Some 3 \<and>
   item_uri (heap ex_nested ! 2) = None \<and> item_uri (heap ex_nested ! 3) = Some ex_uri \<and>
   depth_le (heap ex_nested) 2 3 \<and>
   selection (heap ex_nested) [3, 2] = [3] \<and>
   fst (run 2 ex_nested ex_request False [] []) = None \<and>
   executed (snd (run 2 ex_nested ex_request False [] [])) =
     executed ex_nested @ [single_command (heap ex_nested) False 3] \<and>
   single_command (heap ex_nested) False 3 =
     \<lparr>cmd_name = ''java.run.single'', cmd_uri = ''file:///p/FooTest.java'', cmd_selector = None\<rparr>"
proof -
  have r: "req_include ex_request = Some [3, 2]" "req_debug ex_request = False"
    by (simp_all add: ex_request_def)
  have h: "length (heap ex_nested) = 4"
    "item_parent (heap ex_nested ! 3) = Some 0" "item_parent (heap ex_nested ! 2) = Some 3"
    "item_uri (heap ex_nested ! 2) = None" "item_uri (heap ex_nested ! 3) = Some ex_uri"
    by code_simp+
  have v: "\<forall>a \<in> set [3, 2]. a < length (heap ex_nested) \<and>
             (\<forall>p. item_parent (heap ex_nested ! a) = Some p \<longrightarrow> p < length (heap ex_nested))"
    by (simp add: h)
  have s: "selection (heap ex_nested) [3, 2] = [3]"
    by code_simp
  have dp: "depth_le (heap ex_nested) 2 3"
    by code_simp
  have c: "single_command (heap ex_nested) False 3 =
     \<lparr>cmd_name = ''java.run.single'', cmd_uri = ''file:///p/FooTest.java'', cmd_selector = None\<rparr>"
    by code_simp
  note t = C6_selection_deduplicated[OF v r(1) surjective_pairing[of "run 2 ex_nested ex_request False [] []"]]
  from t s dp have f: "fst (run 2 ex_nested ex_request False [] []) = None"
    by simp
  from t f have "executed (snd (run 2 ex_nested ex_request False [] [])) =
     executed ex_nested @ [single_command (heap ex_nested) False 3]"
    by (auto simp: s h r(2))
  with r(1) h s dp f c show ?thesis by simp
qed

subsection \<open>A failure that belongs to no test\<close>

lemma progress_test_step:
  assumes d: "0 < d" and h: "heap s = h" and run: "currentRun s = Some (log @ calls)"
    and P: "\<And>ct ms. find_test h cs (tc_id x) = Some ct \<Longrightarrow> tc_state x \<noteq> Loaded \<Longrightarrow>
              P \<lparr>rep_item = ct, rep_state = tc_state x, rep_messages = ms\<rparr>"
    and calls: "\<forall>r \<in> set calls. P r"
  shows "\<exists>e s2 msgs' calls'. progress_test d cs x (s, msgs) = (e, (s2, msgs')) \<and>
           (e = None \<or> e = Some TypeError) \<and> heap s2 = h \<and>
           currentRun s2 = Some (log @ calls') \<and> (\<forall>r \<in> set calls'. P r) \<and>
           (tc_stackTrace x \<noteq> None \<and> find_test h cs (tc_id x) = None \<and>
            item_range (h ! cs) = None \<longrightarrow> e = Some TypeError)"
proof -
  from d obtain d' where d': "d = Suc d'" by (cases d) auto
  show ?thesis
  proof (cases "result_message h cs (find_test h cs (tc_id x)) x")
    case (Inl e)
    then have "e = TypeError"
      by (auto simp: result_message_def split: option.splits)
    then show ?thesis
      using Inl h run calls by (simp add: progress_test_def)
  next
    case (Inr message)
    then have nothrow: "\<not> (tc_stackTrace x \<noteq> None \<and> find_test h cs (tc_id x) = None \<and>
            item_range (h ! cs) = None)"
      by (auto simp: result_message_def split: option.splits)
    show ?thesis
    proof (cases "if tc_state x \<noteq> Loaded then find_test h cs (tc_id x) else None")
      case None
      have "\<exists>msgs'. progress_test d cs x (s, msgs) = (None, (s, msgs'))"
        using Inr None run by (cases message) (auto simp: progress_test_def h split: if_splits)
      then show ?thesis
        using h run calls nothrow by blast
    next
      case (Some ct)
      then have f: "find_test h cs (tc_id x) = Some ct" "tc_state x \<noteq> Loaded"
        by (simp_all split: if_splits)
      let ?m = "map_option (\<lambda>m. [m]) message"
      let ?r = "\<lparr>rep_item = ct, rep_state = tc_state x, rep_messages = messages_of (tc_state x) ?m\<rparr>"
      let ?s2 = "apply_reports s [ct] (tc_state x) ?m"
      have st: "set_state d s ct (tc_state x) ?m True = (None, ?s2)"
        using run unfolding d' by (intro set_state_noPassDown) simp
      have p: "progress_test d cs x (s, msgs) = (None, (?s2, msgs))"
        using Inr f run st by (simp add: progress_test_def h)
      have "P ?r"
        using f by (rule P)
      with calls have c: "\<forall>r \<in> set (calls @ [?r]). P r" by simp
      have r: "currentRun ?s2 = Some (log @ calls @ [?r])"
        using run f(2) by (simp add: apply_reports_def)
      have "heap ?s2 = h" using h by simp
      with p c r nothrow show ?thesis
        by (intro exI[of _ None] exI[of _ ?s2] exI[of _ msgs] exI[of _ "calls @ [?r]"]) simp
    qed
  qed
qed

lemma forEach_progress_throws:
  assumes d: "0 < d" and r: "item_range (h ! cs) = None"
    and P: "\<And>x ct ms. x \<in> set tests \<Longrightarrow> find_test h cs (tc_id x) = Some ct \<Longrightarrow>
              tc_state x \<noteq> Loaded \<Longrightarrow>
              P \<lparr>rep_item = ct, rep_state = tc_state x, rep_messages = ms\<rparr>"
  shows "set xs \<subseteq> set tests \<Longrightarrow>
         \<exists>t \<in> set xs. tc_stackTrace t \<noteq> None \<and> find_test h cs (tc_id t) = None \<Longrightarrow>
         heap s = h \<Longrightarrow> currentRun s = Some (log @ calls) \<Longrightarrow> \<forall>r \<in> set calls. P r \<Longrightarrow>
         \<exists>s2 msgs' calls'. forEach (progress_test d cs) xs (s, msgs) = (Some TypeError, (s2, msgs')) \<and>
           heap s2 = h \<and> currentRun s2 = Some (log @ calls') \<and> (\<forall>r \<in> set calls'. P r)"
proof (induction xs arbitrary: s msgs calls)
  case Nil
  then show ?case by simp
next
  case (Cons x xs)
  have Px: "P \<lparr>rep_item = ct, rep_state = tc_state x, rep_messages = ms\<rparr>"
    if "find_test h cs (tc_id x) = Some ct" "tc_state x \<noteq> Loaded" for ct ms
    using Cons.prems(1) that by (intro P) simp_all
  from progress_test_step[of d s h log calls cs x P msgs, OF d Cons.prems(3,4) Px Cons.prems(5)]
  obtain e s2 msgs' calls' where
    p: "progress_test d cs x (s, msgs) = (e, (s2, msgs'))"
    and e: "e = None \<or> e = Some TypeError"
    and s2: "heap s2 = h" "currentRun s2 = Some (log @ calls')" "\<forall>r \<in> set calls'. P r"
    and th: "tc_stackTrace x \<noteq> None \<and> find_test h cs (tc_id x) = None \<and>
            item_range (h ! cs) = None \<longrightarrow> e = Some TypeError"
    by blast
  show ?case
  proof (cases e)
    case (Some err)
    with e have "e = Some TypeError" by simp
    with p s2 show ?thesis by simp
  next
    case None
    with th r have "\<not> (tc_stackTrace x \<noteq> None \<and> find_test h cs (tc_id x) = None)"
      by auto
    with Cons.prems(2) have ex: "\<exists>t \<in> set xs. tc_stackTrace t \<noteq> None \<and> find_test h cs (tc_id t) = None"
      by auto
    from Cons.prems(1) have sub: "set xs \<subseteq> set tests" by simp
    from Cons.IH[OF sub ex s2, of msgs'] p None show ?thesis by simp
  qed
qed

text \<open>
  Claim C3 fails for a suite whose item has no range. When a suite event of a run
  (completed or errored) carries a result with a stack trace that has no item in the
  tree, and the item of the suite has no range, the call throws \<open>TypeError\<close>: the only
  calls it has made on the run handle are the states of results that have an item; it
  neither reports the suite as \<open>errored\<close> with the messages collected nor the children as
  \<open>skipped\<close>.
\<close>

theorem C3_suite_without_range_throws:
  assumes "coll_get (heap s) (items s) (ts_name suite) = Some cs"
    and "ts_state suite = SuiteCompleted \<or> ts_state suite = SuiteErrored"
    and "ts_tests suite = Some tests"
    and "updateTests s suite True = (None, s1)"
    and "currentRun s = Some log"
    and "item_range (heap s1 ! cs) = None"
    and "t \<in> set tests" "tc_stackTrace t \<noteq> None" "find_test (heap s1) cs (tc_id t) = None"
    and "0 < d"
  shows "\<exists>s' calls. testProgress d s suite = (Some TypeError, s') \<and> heap s' = heap s1 \<and>
           currentRun s' = Some (log @ calls) \<and>
           (\<forall>r \<in> set calls. \<exists>x \<in> set tests.
              find_test (heap s1) cs (tc_id x) = Some (rep_item r) \<and> rep_state r = tc_state x)"
proof -
  let ?P = "\<lambda>r. \<exists>x \<in> set tests.
              find_test (heap s1) cs (tc_id x) = Some (rep_item r) \<and> rep_state r = tc_state x"
  have run1: "currentRun s1 = Some (log @ [])"
    using updateTests_run_kept[of s suite True] assms(4,5) by (simp add: run_kept_def)
  have "\<exists>s2 msgs' calls'. forEach (progress_test d cs) tests (s1, []) = (Some TypeError, (s2, msgs')) \<and>
           heap s2 = heap s1 \<and> currentRun s2 = Some (log @ calls') \<and> (\<forall>r \<in> set calls'. ?P r)"
  proof (rule forEach_progress_throws[where tests = tests and P = ?P and calls = "[]"])
    show "0 < d" by fact
    show "item_range (heap s1 ! cs) = None" by fact
    show "?P \<lparr>rep_item = ct, rep_state = tc_state x, rep_messages = ms\<rparr>"
      if "x \<in> set tests" "find_test (heap s1) cs (tc_id x) = Some ct" for x ct ms
      using that by auto
    show "\<exists>t \<in> set tests. tc_stackTrace t \<noteq> None \<and> find_test (heap s1) cs (tc_id t) = None"
      using assms(7,8,9) by blast
    show "currentRun s1 = Some (log @ [])" by (rule run1)
  qed simp_all
  then obtain s2 msgs' calls' where
    f: "forEach (progress_test d cs) tests (s1, []) = (Some TypeError, (s2, msgs'))"
    and s2: "heap s2 = heap s1" "currentRun s2 = Some (log @ calls')" "\<forall>r \<in> set calls'. ?P r"
    by blast
  have "testProgress d s suite = (Some TypeError, s2)"
    using assms(1,2,3,4) f by (auto simp: testProgress_def)
  with s2 show ?thesis by blast
qed

theorem C3_suite_without_range_throws_witness:
  "coll_get (heap ex_norange) (items ex_norange) (ts_name ex_stray_suite) = Some 0 \<and>
   ts_state ex_stray_suite = SuiteCompleted \<and>
   ts_tests ex_stray_suite = Some [ex_caseA, ex_stray] \<and>
   updateTests ex_norange ex_stray_suite True = (None, ex_norange) \<and>
   currentRun ex_norange = Some [] \<and>
   item_range (heap ex_norange ! 0) = None \<and>
   tc_stackTrace ex_stray = Some [''java.lang.IllegalStateException: no database''] \<and>
   tc_state ex_stray = Errored \<and>
   find_test (heap ex_norange) 0 (tc_id ex_stray) = None \<and>
   fst (testProgress 1 ex_norange ex_stray_suite) = Some TypeError \<and>
   currentRun (snd (testProgress 1 ex_norange ex_stray_suite)) =
     Some [\<lparr>rep_item = 1, rep_state = Passed, rep_messages = []\<rparr>]"
proof -
  have a: "coll_get (heap ex_norange) (items ex_norange) (ts_name ex_stray_suite) = Some 0"
    "ts_state ex_stray_suite = SuiteCompleted"
    "ts_tests ex_stray_suite = Some [ex_caseA, ex_stray]"
    "updateTests ex_norange ex_stray_suite True = (None, ex_norange)"
    "currentRun ex_norange = Some []"
    "item_range (heap ex_norange ! 0) = None"
    "tc_stackTrace ex_stray = Some [''java.lang.IllegalStateException: no database'']"
    "tc_state ex_stray = Errored"
    "find_test (heap ex_norange) 0 (tc_id ex_stray) = None"
    by code_simp+
  have l: "currentRun (snd (testProgress 1 ex_norange ex_stray_suite)) =
     Some [\<lparr>rep_item = 1, rep_state = Passed, rep_messages = []\<rparr>]"
    by code_simp
  from C3_suite_without_range_throws[of ex_norange ex_stray_suite 0 "[ex_caseA, ex_stray]"
      ex_norange "[]" ex_stray 1]
  have "fst (testProgress 1 ex_norange ex_stray_suite) = Some TypeError"
    using a by auto
  with a l show ?thesis by simp
qed

lemma progress_test_collects:
  assumes d: "0 < d" and h: "heap s = h" and run: "currentRun s = Some (log @ calls)"
    and rng: "item_range (h ! cs) = Some r" and nl: "tc_state x \<noteq> Loaded"
    and P: "\<And>ct ms. find_test h cs (tc_id x) = Some ct \<Longrightarrow>
              P \<lparr>rep_item = ct, rep_state = tc_state x, rep_messages = ms\<rparr>"
    and calls: "\<forall>r \<in> set calls. P r"
  shows "\<exists>s2 calls'. progress_test d cs x (s, msgs) =
             (None, (s2, msgs @ (if unmatched_failure h cs x
                                 then [suite_message (item_uri (h ! cs)) (range_start r) x] else []))) \<and>
           heap s2 = h \<and> currentRun s2 = Some (log @ calls') \<and> (\<forall>r \<in> set calls'. P r)"
proof (cases "find_test h cs (tc_id x)")
  case None
  have "progress_test d cs x (s, msgs) =
      (None, (s, msgs @ (if unmatched_failure h cs x
                         then [suite_message (item_uri (h ! cs)) (range_start r) x] else [])))"
    using None run rng
    by (cases "tc_stackTrace x")
       (simp_all add: progress_test_def h result_message_def unmatched_failure_def suite_message_def)
  with h run calls show ?thesis by blast
next
  case (Some ct)
  from d obtain d' where d': "d = Suc d'" by (cases d) auto
  obtain message where msg: "result_message h cs (Some ct) x = Inr message"
    by (cases "tc_stackTrace x") (simp_all add: result_message_def)
  let ?m = "map_option (\<lambda>m. [m]) message"
  let ?r = "\<lparr>rep_item = ct, rep_state = tc_state x, rep_messages = messages_of (tc_state x) ?m\<rparr>"
  let ?s2 = "apply_reports s [ct] (tc_state x) ?m"
  have st: "set_state d s ct (tc_state x) ?m True = (None, ?s2)"
    using run unfolding d' by (intro set_state_noPassDown) simp
  have p: "progress_test d cs x (s, msgs) = (None, (?s2, msgs))"
    using Some msg nl run st by (simp add: progress_test_def h)
  have u: "\<not> unmatched_failure h cs x"
    using Some by (simp add: unmatched_failure_def)
  have "P ?r"
    using Some by (rule P)
  with calls have c: "\<forall>r \<in> set (calls @ [?r]). P r" by simp
  have r: "currentRun ?s2 = Some (log @ calls @ [?r])"
    using run nl by (simp add: apply_reports_def)
  have "heap ?s2 = h" using h by simp
  with p c r u show ?thesis
    by (intro exI[of _ ?s2] exI[of _ "calls @ [?r]"]) simp
qed

lemma forEach_progress_collects:
  assumes d: "0 < d" and rng: "item_range (h ! cs) = Some r"
    and P: "\<And>x ct ms. x \<in> set tests \<Longrightarrow> find_test h cs (tc_id x) = Some ct \<Longrightarrow>
              P \<lparr>rep_item = ct, rep_state = tc_state x, rep_messages = ms\<rparr>"
  shows "set xs \<subseteq> set tests \<Longrightarrow> \<forall>t \<in> set xs. tc_state t \<noteq> Loaded \<Longrightarrow>
         heap s = h \<Longrightarrow> currentRun s = Some (log @ calls) \<Longrightarrow> \<forall>r \<in> set calls. P r \<Longrightarrow>
         \<exists>s2 calls'. forEach (progress_test d cs) xs (s, msgs) =
             (None, (s2, msgs @ map (suite_message (item_uri (h ! cs)) (range_start r))
                                  (filter (unmatched_failure h cs) xs))) \<and>
           heap s2 = h \<and> currentRun s2 = Some (log @ calls') \<and> (\<forall>r \<in> set calls'. P r)"
proof (induction xs arbitrary: s msgs calls)
  case Nil
  then show ?case by simp
next
  case (Cons x xs)
  have Px: "P \<lparr>rep_item = ct, rep_state = tc_state x, rep_messages = ms\<rparr>"
    if "find_test h cs (tc_id x) = Some ct" for ct ms
    using Cons.prems(1) that by (intro P) simp_all
  have nl: "tc_state x \<noteq> Loaded"
    using Cons.prems(2) by simp
  let ?ms = "msgs @ (if unmatched_failure h cs x
                     then [suite_message (item_uri (h ! cs)) (range_start r) x] else [])"
  from progress_test_collects[of d s h log calls cs r x P msgs,
      OF d Cons.prems(3,4) rng nl Px Cons.prems(5)]
  obtain s2 calls' where
    p: "progress_test d cs x (s, msgs) = (None, (s2, ?ms))"
    and s2: "heap s2 = h" "currentRun s2 = Some (log @ calls')" "\<forall>r \<in> set calls'. P r"
    by blast
  from Cons.prems(1,2) have sub: "set xs \<subseteq> set tests" "\<forall>t \<in> set xs. tc_state t \<noteq> Loaded"
    by simp_all
  from Cons.IH[OF sub s2, of ?ms] p show ?case by auto
qed

text \<open>
  When the item of the suite has a range, no result is in the state \<open>loaded\<close> and the
  children of the suite are trees that the calls of \<open>set\<close> reach, a suite event of a
  run (completed or errored) that carries results without an item, not passed and with
  a stack trace, is reported in full: after the states of the results that
  have an item, the suite is reported as \<open>errored\<close> with the messages of those results,
  located at the start of the suite's range, and then every child of the suite and
  every item below it as \<open>skipped\<close>.
\<close>

lemma suite_rollup:
  assumes suite: "coll_get (heap s) (items s) (ts_name suite) = Some cs"
    and st: "ts_state suite = SuiteCompleted \<or> ts_state suite = SuiteErrored"
    and tests: "ts_tests suite = Some tests" "\<forall>t \<in> set tests. tc_state t \<noteq> Loaded"
    and upd: "updateTests s suite True = (None, s1)"
    and run: "currentRun s = Some log"
    and rng: "item_range (heap s1 ! cs) = Some r"
    and depth: "\<forall>c \<in> set (item_children (heap s1 ! cs)). depth_le (heap s1) d c" "0 < d"
    and some: "filter (unmatched_failure (heap s1) cs) tests \<noteq> []"
  shows "\<exists>s' calls. testProgress d s suite = (None, s') \<and> heap s' = heap s1 \<and>
           currentRun s' = Some (log @ calls @
             \<lparr>rep_item = cs, rep_state = Errored,
              rep_messages = map (suite_message (item_uri (heap s1 ! cs)) (range_start r))
                               (filter (unmatched_failure (heap s1) cs) tests)\<rparr> #
             map (\<lambda>b. \<lparr>rep_item = b, rep_state = Skipped, rep_messages = []\<rparr>)
               (concat (map (subtree (heap s1) d) (item_children (heap s1 ! cs))))) \<and>
           (\<forall>r \<in> set calls. \<exists>x \<in> set tests.
              find_test (heap s1) cs (tc_id x) = Some (rep_item r) \<and> rep_state r = tc_state x)"
proof -
  let ?P = "\<lambda>r. \<exists>x \<in> set tests.
              find_test (heap s1) cs (tc_id x) = Some (rep_item r) \<and> rep_state r = tc_state x"
  let ?ms = "map (suite_message (item_uri (heap s1 ! cs)) (range_start r))
               (filter (unmatched_failure (heap s1) cs) tests)"
  let ?ch = "item_children (heap s1 ! cs)"
  from depth(2) obtain d' where d': "d = Suc d'" by (cases d) auto
  have run1: "currentRun s1 = Some (log @ [])"
    using updateTests_run_kept[of s suite True] upd run by (simp add: run_kept_def)
  have "\<exists>s2 calls'. forEach (progress_test d cs) tests (s1, []) = (None, (s2, [] @ ?ms)) \<and>
           heap s2 = heap s1 \<and> currentRun s2 = Some (log @ calls') \<and> (\<forall>r \<in> set calls'. ?P r)"
  proof (rule forEach_progress_collects[where tests = tests and P = ?P and calls = "[]"])
    show "0 < d" by fact
    show "item_range (heap s1 ! cs) = Some r" by fact
    show "?P \<lparr>rep_item = ct, rep_state = tc_state x, rep_messages = ms\<rparr>"
      if "x \<in> set tests" "find_test (heap s1) cs (tc_id x) = Some ct" for x ct ms
      using that by auto
    show "\<forall>t \<in> set tests. tc_state t \<noteq> Loaded" by fact
    show "currentRun s1 = Some (log @ [])" by (rule run1)
  qed simp_all
  then obtain s2 calls where
    f: "forEach (progress_test d cs) tests (s1, []) = (None, (s2, ?ms))"
    and s2: "heap s2 = heap s1" "currentRun s2 = Some (log @ calls)" "\<forall>r \<in> set calls. ?P r"
    by auto
  let ?s3 = "apply_reports s2 [cs] Errored (Some ?ms)"
  have e: "set_state d s2 cs Errored (Some ?ms) True = (None, ?s3)"
    using s2(2) unfolding d' by (intro set_state_noPassDown) simp
  have sk: "forEach (\<lambda>item s'. set_state d s' item Skipped None False) ?ch ?s3 =
      (None, apply_reports ?s3 (concat (map (subtree (heap s1) d) ?ch)) Skipped None)"
  proof (rule forEach_set_state)
    fix c and s' :: adapter
    assume "c \<in> set ?ch" "heap s' = heap s1" "currentRun s' \<noteq> None"
    with depth(1) set_state_subtree[of s' d c Skipped None]
    show "set_state d s' c Skipped None False = (None, apply_reports s' (subtree (heap s1) d c) Skipped None)"
      by simp
  qed (simp_all add: s2)
  let ?s' = "apply_reports ?s3 (concat (map (subtree (heap s1) d) ?ch)) Skipped None"
  have ne: "?ms \<noteq> []" using some by simp
  have "testProgress d s suite = (None, ?s')"
    using suite st tests(1) upd f ne e sk s2(1)
    by (auto simp: testProgress_def)
  moreover have "heap ?s' = heap s1" by (simp add: s2)
  moreover have "currentRun ?s' = Some (log @ calls @
             \<lparr>rep_item = cs, rep_state = Errored, rep_messages = ?ms\<rparr> #
             map (\<lambda>b. \<lparr>rep_item = b, rep_state = Skipped, rep_messages = []\<rparr>)
               (concat (map (subtree (heap s1) d) ?ch)))"
    using s2(2) by (simp add: apply_reports_def messages_of_def)
  ultimately show ?thesis
    using s2(3) by blast
qed

text \<open>The event of the failure without a test, for the small tree whose suite has a range.\<close>

lemma suite_rollup_example:
  "testProgress 2 ex_running ex_stray_suite =
     (None, ex_running\<lparr>currentRun := Some
        [\<lparr>rep_item = 1, rep_state = Passed, rep_messages = []\<rparr>,
         \<lparr>rep_item = 0, rep_state = Errored,
          rep_messages = [\<lparr>msg_text = ''java.lang.IllegalStateException: no database'',
                            msg_location = Some \<lparr>loc_uri = Some ex_uri,
                                                  loc_pos = \<lparr>pos_line = Finite 3, pos_character = 0\<rparr>\<rparr>\<rparr>]\<rparr>,
         \<lparr>rep_item = 1, rep_state = Skipped, rep_messages = []\<rparr>]\<rparr>)"
  by code_simp

subsection \<open>Items that keep their place\<close>

lemma length_heap_set_range [simp]: "length (heap (set_range s a r)) = length (heap s)"
  by (simp add: set_range_def)











text \<open>The top-level collection is touched by \<open>current_suite\<close> only.\<close>

lemma items_set_range [simp]: "items (set_range s a r) = items s"
  by (simp add: set_range_def)

lemma items_children_add [simp]: "items (children_add s owner a) = items s"
  by (simp add: children_add_def Let_def)

lemma items_create [simp]: "items (snd (createTestItem s i l u)) = items s"
  by (simp add: createTestItem_def)

lemma items_children_replace [simp]: "items (snd (children_replace s owner xs)) = items s"
  by (simp add: children_replace_def Let_def split: option.splits)















end
